theory Spec2Isabelle
  imports Main
begin

section \<open>Python strings, integers and errors\<close>

text \<open>
  The module \<^verbatim>\<open>aim/interface.py\<close> is Python 2. Its strings are byte strings
  (\<^typ>\<open>string\<close>), its integers are unbounded (\<^typ>\<open>int\<close>), and every exception it can
  raise in the modelled functions is a constructor of \<open>py_error\<close>.
\<close>

datatype py_error =
    IOError | IndexError | ValueError | AssertionError | NameError
  | KeyError | TypeError | AttributeError | ZeroDivisionError | EngineInvocationError

abbreviation nl :: char where
  "nl \<equiv> CHR 0x0A"

text \<open>The characters that C's \<^verbatim>\<open>isspace\<close> accepts: what \<^verbatim>\<open>str.split()\<close> splits at and
  what \<^verbatim>\<open>int()\<close> strips.\<close>

definition isspace :: "char \<Rightarrow> bool" where
  "isspace c = (c = CHR '' '' \<or> c = CHR 0x09 \<or> c = CHR 0x0A \<or> c = CHR 0x0B
                \<or> c = CHR 0x0C \<or> c = CHR 0x0D)"

definition isdigit :: "char \<Rightarrow> bool" where
  "isdigit c = (48 \<le> (of_char c :: nat) \<and> (of_char c :: nat) \<le> 57)"

definition strip :: "string \<Rightarrow> string" where
  "strip s = rev (dropWhile isspace (rev (dropWhile isspace s)))"

definition digits_value :: "string \<Rightarrow> nat" where
  "digits_value ds = foldl (\<lambda>a c. 10 * a + (of_char c - 48)) 0 ds"

text \<open>\<^verbatim>\<open>int(s)\<close> on a string: surrounding whitespace is dropped, one sign is allowed, then
  at least one decimal digit and nothing else; anything else is a \<^verbatim>\<open>ValueError\<close>
  (\<open>None\<close> here).\<close>

definition py_int :: "string \<Rightarrow> int option" where
  "py_int s =
     (let t = strip s;
          neg = (t \<noteq> [] \<and> hd t = CHR ''-'');
          ds = (if t \<noteq> [] \<and> (hd t = CHR ''-'' \<or> hd t = CHR ''+'') then tl t else t)
      in if ds \<noteq> [] \<and> list_all isdigit ds
         then Some (if neg then - int (digits_value ds) else int (digits_value ds))
         else None)"

text \<open>\<^verbatim>\<open>'%i' % n\<close>: the decimal digits, with a minus sign for a negative number.\<close>

definition digit_char :: "nat \<Rightarrow> char" where
  "digit_char d = ''0123456789'' ! d"

fun digits :: "nat \<Rightarrow> string" where
  "digits n = (if n < 10 then [digit_char n]
               else digits (n div 10) @ [digit_char (n mod 10)])"

declare digits.simps [simp del]

definition fmt_i :: "int \<Rightarrow> string" where
  "fmt_i n = (if n < 0 then CHR ''-'' # digits (nat (- n)) else digits (nat n))"

text \<open>\<^verbatim>\<open>s.split()\<close>: the maximal runs of non-whitespace characters.\<close>

fun split_ws :: "string \<Rightarrow> string list" where
  "split_ws [] = []"
| "split_ws (c # cs) =
     (if isspace c then split_ws cs
      else (case split_ws cs of
              [] \<Rightarrow> [[c]]
            | w # ws \<Rightarrow> if cs \<noteq> [] \<and> \<not> isspace (hd cs) then (c # w) # ws else [c] # w # ws))"

text \<open>\<^verbatim>\<open>s.endswith(t)\<close>.\<close>

definition endswith :: "string \<Rightarrow> string \<Rightarrow> bool" where
  "endswith s t = (length t \<le> length s \<and> drop (length s - length t) s = t)"

text \<open>\<^verbatim>\<open>s.rfind(c)\<close> for a single character: the last index of \<open>c\<close>, or \<open>-1\<close>.\<close>

definition rfind :: "string \<Rightarrow> char \<Rightarrow> int" where
  "rfind s c = (if c \<in> set s
                then int (length s) - 1 - int (length (takeWhile (\<lambda>x. x \<noteq> c) (rev s)))
                else - 1)"

text \<open>\<^verbatim>\<open>os.path.splitext(p)\<close> of \<^verbatim>\<open>posixpath\<close>: the extension starts at the last dot,
  provided that dot lies after the last slash and some character of the last path
  component before it is not a dot.\<close>

definition splitext :: "string \<Rightarrow> string \<times> string" where
  "splitext p =
     (let sepIndex = rfind p CHR ''/'';
          dotIndex = rfind p CHR ''.''
      in if dotIndex > sepIndex
            \<and> list_ex (\<lambda>x. x \<noteq> CHR ''.'')
                 (take (nat (dotIndex - (sepIndex + 1))) (drop (nat (sepIndex + 1)) p))
         then (take (nat dotIndex) p, drop (nat dotIndex) p)
         else (p, []))"

text \<open>\<^verbatim>\<open>s[-2:]\<close>: the last two characters, or all of \<open>s\<close> when it is shorter.\<close>

definition last2 :: "string \<Rightarrow> string" where
  "last2 s = drop (length s - 2) s"

section \<open>Files\<close>

text \<open>
  A file system maps a file name to the bytes of the file. \<^verbatim>\<open>readlines()\<close> cuts the
  bytes after every newline and keeps the newline in the line; writing the lines back one
  after the other is \<^const>\<open>concat\<close>.
\<close>

type_synonym filesystem = "string \<rightharpoonup> string"

fun readlines :: "string \<Rightarrow> string list" where
  "readlines [] = []"
| "readlines (c # cs) =
     (if c = nl then [c] # readlines cs
      else (case readlines cs of [] \<Rightarrow> [[c]] | l # ls \<Rightarrow> (c # l) # ls))"

section \<open>Wind profile patcher\<close>

text \<open>
  Both functions read the whole file, replace one line and write every line back. The
  arguments \<^verbatim>\<open>vent_location_easting\<close> and \<^verbatim>\<open>vent_location_northing\<close> enter only through
  \<^verbatim>\<open>'%s'\<close>, so the model takes the text that \<^verbatim>\<open>str()\<close> gives for them. An assignment
  to a list index that does not exist is an \<^verbatim>\<open>IndexError\<close>; opening a file that does
  not exist is an \<^verbatim>\<open>IOError\<close>.
\<close>

definition set_vent_location_in_windfield ::
  "filesystem \<Rightarrow> string \<Rightarrow> string \<Rightarrow> string \<Rightarrow> py_error + filesystem" where
  "set_vent_location_in_windfield fs filename vent_location_easting vent_location_northing =
     (case fs filename of
        None \<Rightarrow> Inl IOError
      | Some content \<Rightarrow>
          (let lines = readlines content in
           if lines = [] then Inl IndexError
           else Inr (fs(filename \<mapsto>
                  concat (lines[0 := vent_location_easting @ '' '' @ vent_location_northing @ [nl]])))))"

definition set_timeblocks_in_windfield :: "filesystem \<Rightarrow> string \<Rightarrow> py_error + filesystem" where
  "set_timeblocks_in_windfield fs filename =
     (let basename = fst (splitext filename) in
      case py_int (last2 basename) of
        None \<Rightarrow> Inl ValueError
      | Some starthour \<Rightarrow>
          (let endhour = starthour + 6;
               startsec = starthour * 3600;
               endsec = endhour * 3600
           in case fs filename of
                None \<Rightarrow> Inl IOError
              | Some content \<Rightarrow>
                  (let lines = readlines content in
                   if length lines < 3 then Inl IndexError
                   else Inr (fs(filename \<mapsto>
                          concat (lines[2 := fmt_i startsec @ '' '' @ fmt_i endsec @ [nl]]))))))"

section \<open>Wind profile stitcher\<close>

text \<open>
  \<^verbatim>\<open>join_sorted_windprofiles(wind_data_files, outfilename)\<close>. The header of the first file
  is read inside \<^verbatim>\<open>if first_file:\<close>; it gives the vent location line, the date line, the
  two integers of line 3 and the integer of line 4. A line that is missing is an
  \<^verbatim>\<open>IndexError\<close>, a token that \<^verbatim>\<open>int()\<close> rejects or a line 3 that has not two tokens is
  a \<^verbatim>\<open>ValueError\<close>, in the order in which the source evaluates them.
\<close>

definition read_header :: "string list \<Rightarrow> py_error + (string list \<times> int \<times> int \<times> int)" where
  "read_header lines =
     (if length lines < 3 then Inl IndexError
      else (case those (map py_int (split_ws (lines ! 2))) of
              None \<Rightarrow> Inl ValueError
            | Some [seconds_start, seconds_end] \<Rightarrow>
                if length lines < 4 then Inl IndexError
                else (case py_int (lines ! 3) of
                        None \<Rightarrow> Inl ValueError
                      | Some num_layers \<Rightarrow>
                          Inr ([lines ! 0, lines ! 1], seconds_start, seconds_end, num_layers))
            | Some _ \<Rightarrow> Inl ValueError))"

text \<open>
  The loop over \<^verbatim>\<open>wind_data_files\<close>. The state is the flag \<^verbatim>\<open>first_file\<close> and the three
  variables \<^verbatim>\<open>seconds_start\<close>, \<^verbatim>\<open>seconds_end\<close>, \<^verbatim>\<open>num_layers\<close>, which are read only after
  the first file has set them. \<open>out\<close> collects the strings given to \<^verbatim>\<open>outfile.write\<close>, in
  order; what was written before an exception stays written. The \<^verbatim>\<open>assert\<close> compares
  the number of lines after line 4 of the current file with \<^verbatim>\<open>num_layers\<close>.
\<close>

fun join_loop ::
  "filesystem \<Rightarrow> bool \<Rightarrow> int \<times> int \<times> int \<Rightarrow> string list \<Rightarrow> string list
     \<Rightarrow> string list \<times> py_error option" where
  "join_loop fs first_file st [] out = (out, None)"
| "join_loop fs first_file (seconds_start, seconds_end, num_layers) (wind_data_file # rest) out =
     (case fs wind_data_file of
        None \<Rightarrow> (out, Some IOError)
      | Some content \<Rightarrow>
          (let lines = readlines content in
           case (if first_file then read_header lines
                 else Inr ([], seconds_start, seconds_end, num_layers)) of
             Inl err \<Rightarrow> (out, Some err)
           | Inr (header, seconds_start, seconds_end, num_layers) \<Rightarrow>
               (let out = out @ header
                          @ [fmt_i seconds_start @ '' '' @ fmt_i seconds_end @ [nl],
                             fmt_i num_layers @ [nl]]
                in if int (length (drop 4 lines)) \<noteq> num_layers
                   then (out, Some AssertionError)
                   else join_loop fs False
                          (seconds_end, seconds_end + 6 * 3600, num_layers) rest
                          (out @ drop 4 lines))))"

text \<open>
  The output file is opened for writing first: \<^verbatim>\<open>outfile = open(outfilename, 'w')\<close>. Whether
  a name can be opened for writing (its directory exists and may be written) is the
  parameter \<open>creatable\<close>; when it cannot, \<^verbatim>\<open>open\<close> raises \<^verbatim>\<open>IOError\<close> and nothing is read or
  written. Opening empties the file; an input file with the same name is therefore read as
  an empty file. The result is the new file system and the exception, if one was raised.
\<close>

definition join_sorted_windprofiles ::
  "(string \<Rightarrow> bool) \<Rightarrow> filesystem \<Rightarrow> string list \<Rightarrow> string
     \<Rightarrow> filesystem \<times> py_error option" where
  "join_sorted_windprofiles creatable fs wind_data_files outfilename =
     (if \<not> creatable outfilename then (fs, Some IOError)
      else
        (let fs0 = fs(outfilename \<mapsto> []);
             (out, err) = join_loop fs0 True (0, 0, 0) wind_data_files []
         in (fs0(outfilename \<mapsto> concat out), err)))"

text \<open>For the examples: every name can be opened for writing.\<close>

definition any_name :: "string \<Rightarrow> bool" where
  "any_name name = True"

text \<open>
  The time range of block \<open>k\<close> as the specification words it: block 0 has the range
  recorded in the first file; every later block starts where the block before it ends and
  lasts 21600 seconds.
\<close>

primrec spec_block_range :: "int \<times> int \<Rightarrow> nat \<Rightarrow> int \<times> int" where
  "spec_block_range recorded 0 = recorded"
| "spec_block_range recorded (Suc k) =
     (snd (spec_block_range recorded k), snd (spec_block_range recorded k) + 21600)"

definition lines_of :: "filesystem \<Rightarrow> string \<Rightarrow> string list" where
  "lines_of fs f = readlines (the (fs f))"

text \<open>The strings written for one block, given its time range, the layer count and its
  data lines: the time-range line, the layer-count line, the data lines.\<close>

definition block_text :: "int \<times> int \<Rightarrow> int \<Rightarrow> string list \<Rightarrow> string list" where
  "block_text secs n data =
     [fmt_i (fst secs) @ '' '' @ fmt_i (snd secs) @ [nl], fmt_i n @ [nl]] @ data"

section \<open>Distributed job scheduler\<close>

text \<open>
  \<^verbatim>\<open>run_multiple_windfields\<close> as one process runs it, and the branch of \<^verbatim>\<open>run_scenario\<close> that
  calls it. What the process does to the outside is recorded as a list of events, in
  order; the events before an exception stay. \<open>BuildOutputDir d\<close> is a call of
  \<^verbatim>\<open>build_output_dir\<close> that returned the path \<open>d\<close>.
\<close>

datatype event =
    BuildOutputDir string
  | Sleep nat
  | Barrier
  | Makedir string
  | Send string nat
  | Receive nat string
  | RunScenario nat string
  | Chmod string
  | CopyResult string string
  | CopyProjection string
  | Cleanup nat
  | Report nat
  | Finalize

text \<open>
  A call either raises, or waits for ever in a receive, or returns.
\<close>

datatype 'a outcome = Raised py_error | Blocked | Returned 'a

text \<open>
  \<^verbatim>\<open>import pypar\<close> either fails, and then the name \<^verbatim>\<open>pypar\<close> stays unbound in the function
  (\<open>None\<close>), or it gives the module, of which the model keeps what \<^verbatim>\<open>pypar.size()\<close> and
  \<^verbatim>\<open>pypar.rank()\<close> return. Any later use of the unbound name raises \<^verbatim>\<open>UnboundLocalError\<close>,
  a \<^verbatim>\<open>NameError\<close>.
\<close>

record mpi =
  mpi_size :: nat
  mpi_rank :: nat

text \<open>\<^verbatim>\<open>os.path.join(a, 'logs')\<close>.\<close>

definition logs_dir :: "string \<Rightarrow> string" where
  "logs_dir a = (if a = [] \<or> last a = CHR ''/'' then a @ ''logs'' else a @ ''/logs'')"

text \<open>
  Lines 634 to 653: the exchange of the output directory name. Rank 0 makes the log
  directory and sends \<^verbatim>\<open>hazard_output_folder\<close> to every \<^verbatim>\<open>i\<close> in \<^verbatim>\<open>range(P)\<close>; every other
  rank replaces its own \<^verbatim>\<open>hazard_output_folder\<close> by what it receives from rank 0. \<open>inbox\<close>
  holds the messages from rank 0 that have reached this process, oldest first; a receive
  on an empty inbox does not return. The result is the pair of \<^verbatim>\<open>hazard_output_folder\<close>
  and \<^verbatim>\<open>logdir\<close>. With \<^verbatim>\<open>hazard_output_folder=None\<close>, the default, \<^verbatim>\<open>os.path.join\<close> raises
  on rank 0.
\<close>

definition handshake ::
  "mpi option \<Rightarrow> nat \<Rightarrow> nat \<Rightarrow> string list \<Rightarrow> string option
     \<Rightarrow> event list \<times> (string \<times> string) outcome" where
  "handshake pypar P p inbox hazard_output_folder =
     (if p = 0 then
        (case hazard_output_folder of
           None \<Rightarrow> ([], Raised AttributeError)
         | Some folder \<Rightarrow>
             (let logdir = logs_dir folder in
              if P = 0 then ([Makedir logdir], Returned (folder, logdir))
              else (case pypar of
                      None \<Rightarrow> ([Makedir logdir], Raised NameError)
                    | Some m \<Rightarrow>
                        (Makedir logdir # map (Send folder) [0..<P],
                         Returned (folder, logdir)))))
      else
        (case pypar of
           None \<Rightarrow> ([], Raised NameError)
         | Some m \<Rightarrow>
             (case inbox of
                [] \<Rightarrow> ([], Blocked)
              | msg # later \<Rightarrow> ([Receive 0 msg], Returned (msg, logs_dir msg)))))"

text \<open>
  Lines 677 to 736: the loop over \<^verbatim>\<open>enumerate(os.listdir(windfield_directory))\<close>. The run
  of one scenario with the parameters derived from the wind field (\<^verbatim>\<open>_run_scenario\<close> and
  the simulation engine behind it) is the parameter \<open>engine\<close>: \<open>engine i windfield\<close> says
  whether that run completes; if it does not, its exception ends the loop.
\<close>

text \<open>The test \<^verbatim>\<open>i%P == p\<close> under the comment ``Distribute jobs cyclically to
  processors'': whether the entry with global index \<open>i\<close> falls to rank \<open>p\<close> of \<open>P\<close>.\<close>

definition distributed_to :: "nat \<Rightarrow> nat \<Rightarrow> nat \<Rightarrow> bool" where
  "distributed_to P p i = (i mod P = p)"

record loop_state =
  count_local :: nat
  count_all :: nat
  trace :: "event list"

fun windfield_loop ::
  "nat \<Rightarrow> nat \<Rightarrow> (nat \<Rightarrow> string \<Rightarrow> bool) \<Rightarrow> string \<Rightarrow> string
     \<Rightarrow> (nat \<times> string) list \<Rightarrow> loop_state \<Rightarrow> loop_state \<times> py_error option" where
  "windfield_loop P p engine windfield_directory hazard_output_folder [] st = (st, None)"
| "windfield_loop P p engine windfield_directory hazard_output_folder ((i, file) # rest) st =
     (let st = st\<lparr>count_all := count_all st + 1\<rparr> in
      if P = 0 then (st, Some ZeroDivisionError)
      else if distributed_to P p i then
        (if \<not> endswith file ''.profile''
         then windfield_loop P p engine windfield_directory hazard_output_folder rest st
         else
           (let st = st\<lparr>count_local := count_local st + 1\<rparr>;
                windfield = windfield_directory @ ''/'' @ file;
                windname = fst (splitext file)
            in if \<not> engine i windfield
               then (st\<lparr>trace := trace st @ [RunScenario i windfield]\<rparr>,
                     Some EngineInvocationError)
               else windfield_loop P p engine windfield_directory hazard_output_folder rest
                      (st\<lparr>trace := trace st
                           @ [RunScenario i windfield, Makedir hazard_output_folder,
                              Chmod hazard_output_folder,
                              CopyResult windname hazard_output_folder]
                           @ (if i = 0 then [CopyProjection hazard_output_folder] else [])
                           @ [Cleanup i]\<rparr>)))
      else windfield_loop P p engine windfield_directory hazard_output_folder rest st)"

text \<open>
  The whole function. Without \<^verbatim>\<open>pypar\<close> it sets \<^verbatim>\<open>P = 1\<close> and \<^verbatim>\<open>p = 0\<close>; with it, it reads
  them from the module and meets the others at a first barrier. After the exchange of
  the directory name come the second barrier, the staggered sleep, the loop, the third
  barrier, the report of rank 0 and \<^verbatim>\<open>pypar.finalize()\<close>. The result is the directory name
  the process ended with and the two counters.
\<close>

definition run_multiple_windfields ::
  "mpi option \<Rightarrow> string list \<Rightarrow> (nat \<Rightarrow> string \<Rightarrow> bool) \<Rightarrow> string \<Rightarrow> string option
     \<Rightarrow> string list \<Rightarrow> event list \<times> (string \<times> nat \<times> nat) outcome" where
  "run_multiple_windfields pypar inbox engine windfield_directory hazard_output_folder listing =
     (let (P, p, ev0) = (case pypar of
                           None \<Rightarrow> (1, 0, [])
                         | Some m \<Rightarrow> (mpi_size m, mpi_rank m, [Sleep 1, Barrier]))
      in case handshake pypar P p inbox hazard_output_folder of
           (ev1, Raised err) \<Rightarrow> (ev0 @ ev1, Raised err)
         | (ev1, Blocked) \<Rightarrow> (ev0 @ ev1, Blocked)
         | (ev1, Returned (folder, logdir)) \<Rightarrow>
             (case pypar of
                None \<Rightarrow> (ev0 @ ev1, Raised NameError)
              | Some m \<Rightarrow>
                  (let ev2 = ev0 @ ev1 @ [Barrier, Sleep (2 * p)];
                       (st, err) = windfield_loop P p engine windfield_directory folder
                                     (enumerate 0 listing)
                                     \<lparr>count_local = 0, count_all = 0, trace = []\<rparr>
                   in case err of
                        Some e \<Rightarrow> (ev2 @ trace st, Raised e)
                      | None \<Rightarrow>
                          (ev2 @ trace st @ [Barrier]
                             @ (if p = 0 then [Report (count_all st)] else [])
                             @ [Finalize],
                           Returned (folder, count_local st, count_all st)))))"

text \<open>The wind fields a process has run, read off its events: pairs of the global index
  and the path of the wind field.\<close>

fun units :: "event list \<Rightarrow> (nat \<times> string) list" where
  "units [] = []"
| "units (RunScenario i w # evs) = (i, w) # units evs"
| "units (ev # evs) = units evs"

text \<open>The global indices of the wind fields that rank \<open>p\<close> of \<open>P\<close> runs in its loop.\<close>

definition processed_by ::
  "nat \<Rightarrow> nat \<Rightarrow> (nat \<Rightarrow> string \<Rightarrow> bool) \<Rightarrow> string \<Rightarrow> string \<Rightarrow> string list \<Rightarrow> nat list" where
  "processed_by P p engine windfield_directory hazard_output_folder listing =
     map fst (units (trace (fst (windfield_loop P p engine windfield_directory
        hazard_output_folder (enumerate 0 listing)
        \<lparr>count_local = 0, count_all = 0, trace = []\<rparr>))))"

text \<open>The ranks a process has sent to, and the messages that its sends leave in the inbox
  of rank \<open>dst\<close>.\<close>

fun destinations :: "event list \<Rightarrow> nat list" where
  "destinations [] = []"
| "destinations (Send msg dst # evs) = dst # destinations evs"
| "destinations (ev # evs) = destinations evs"

fun delivered :: "event list \<Rightarrow> nat \<Rightarrow> string list" where
  "delivered [] dst = []"
| "delivered (Send msg d # evs) dst = (if d = dst then msg # delivered evs dst else delivered evs dst)"
| "delivered (ev # evs) dst = delivered evs dst"

fun reports :: "event list \<Rightarrow> nat list" where
  "reports [] = []"
| "reports (Report n # evs) = n # reports evs"
| "reports (ev # evs) = reports evs"

text \<open>
  The wind fields that fall to rank \<open>p\<close> of \<open>P\<close> in an enumerated listing: the entries
  whose index \<open>i\<close> has \<open>i mod P = p\<close> and whose name ends in \<^verbatim>\<open>.profile\<close>, each with the
  path \<^verbatim>\<open><windfield_directory>/<file>\<close>.
\<close>

definition own_units ::
  "nat \<Rightarrow> nat \<Rightarrow> string \<Rightarrow> (nat \<times> string) list \<Rightarrow> (nat \<times> string) list" where
  "own_units P p dir xs =
     map (\<lambda>(i, f). (i, dir @ ''/'' @ f))
       (filter (\<lambda>(i, f). i mod P = p \<and> endswith f ''.profile'') xs)"

text \<open>
  The global indices of the wind fields that the process of rank \<open>p\<close> in a group of \<open>P\<close>
  runs in one call of \<^verbatim>\<open>run_multiple_windfields\<close>, where \<^verbatim>\<open>pypar.size()\<close> gives \<open>P\<close> and
  \<^verbatim>\<open>pypar.rank()\<close> gives \<open>p\<close>.
\<close>

definition scheduled ::
  "nat \<Rightarrow> nat \<Rightarrow> string list \<Rightarrow> (nat \<Rightarrow> string \<Rightarrow> bool) \<Rightarrow> string \<Rightarrow> string option
     \<Rightarrow> string list \<Rightarrow> nat list" where
  "scheduled P p inbox engine windfield_directory hazard_output_folder listing =
     map fst (units (fst (run_multiple_windfields (Some \<lparr>mpi_size = P, mpi_rank = p\<rparr>) inbox
        engine windfield_directory hazard_output_folder listing)))"

text \<open>
  Lines 145 to 161 of \<^verbatim>\<open>run_scenario\<close>, for a scenario script whose \<^verbatim>\<open>wind_profile\<close> is a
  directory: the process computes \<^verbatim>\<open>multiple_output_dir\<close> with one call of
  \<^verbatim>\<open>build_output_dir\<close> and hands it to \<^verbatim>\<open>run_multiple_windfields\<close> as
  \<^verbatim>\<open>hazard_output_folder\<close>. \<^verbatim>\<open>build_output_dir\<close> is not part of this file and its result
  carries the time stamp of the call; the path it returns in this process is the parameter
  \<open>multiple_output_dir\<close>. \<^verbatim>\<open>run_scenario\<close> itself returns \<^verbatim>\<open>None\<close>; the model keeps what
  \<^verbatim>\<open>run_multiple_windfields\<close> ended with.
\<close>

definition run_scenario_script ::
  "mpi option \<Rightarrow> string list \<Rightarrow> (nat \<Rightarrow> string \<Rightarrow> bool) \<Rightarrow> string \<Rightarrow> string
     \<Rightarrow> string list \<Rightarrow> event list \<times> (string \<times> nat \<times> nat) outcome" where
  "run_scenario_script pypar inbox engine wind_profile multiple_output_dir listing =
     (let (evs, result) = run_multiple_windfields pypar inbox engine wind_profile
                            (Some multiple_output_dir) listing
      in (BuildOutputDir multiple_output_dir # evs, result))"

text \<open>The paths a process has computed with \<^verbatim>\<open>build_output_dir\<close>, and the messages it has
  received, each with the rank it came from.\<close>

fun computed :: "event list \<Rightarrow> string list" where
  "computed [] = []"
| "computed (BuildOutputDir d # evs) = d # computed evs"
| "computed (ev # evs) = computed evs"

fun received :: "event list \<Rightarrow> (nat \<times> string) list" where
  "received [] = []"
| "received (Receive src msg # evs) = (src, msg) # received evs"
| "received (ev # evs) = received evs"

text \<open>
  A group of \<open>P\<close> processes that all run the same scenario script: the process of rank
  \<open>p\<close> gets the path \<open>output_dirs p\<close> from its own call of \<^verbatim>\<open>build_output_dir\<close>. The inbox
  of a rank other than 0 holds what the sends of rank 0 deliver to it.
\<close>

definition group_member ::
  "nat \<Rightarrow> (nat \<Rightarrow> string \<Rightarrow> bool) \<Rightarrow> string \<Rightarrow> (nat \<Rightarrow> string) \<Rightarrow> string list \<Rightarrow> nat
     \<Rightarrow> event list \<times> (string \<times> nat \<times> nat) outcome" where
  "group_member P engine wind_profile output_dirs listing p =
     run_scenario_script (Some \<lparr>mpi_size = P, mpi_rank = p\<rparr>)
       (if p = 0 then []
        else delivered (fst (run_scenario_script (Some \<lparr>mpi_size = P, mpi_rank = 0\<rparr>) []
                               engine wind_profile (output_dirs 0) listing)) p)
       engine wind_profile (output_dirs p) listing"

text \<open>For the examples: an engine whose every run completes, and processes whose calls of
  \<^verbatim>\<open>build_output_dir\<close> fall into different seconds.\<close>

definition completes :: "nat \<Rightarrow> string \<Rightarrow> bool" where
  "completes i windfield = True"

definition stamped :: "nat \<Rightarrow> string" where
  "stamped p = ''out_'' @ fmt_i (int p)"

section \<open>Parameter space expander\<close>

text \<open>
  A parameter value is a string, a number (standing for every other value that is not
  a tuple) or a tuple of values; \<^verbatim>\<open>type(p) is tuple\<close> is the test for the constructor
  \<open>Tuple\<close>. A dictionary of parameters is the list of its items in the order in which
  the dictionary is iterated; a key is looked up with \<^const>\<open>map_of\<close>, and
  \<^verbatim>\<open>d[k] = v\<close> replaces the value where the key is, or adds the key.
\<close>

datatype pval = Str string | Num int | Tuple "pval list"

type_synonym params = "(string \<times> pval) list"

fun dict_set :: "string \<Rightarrow> pval \<Rightarrow> params \<Rightarrow> params" where
  "dict_set k v [] = [(k, v)]"
| "dict_set k v ((k', v') # ps) =
     (if k' = k then (k, v) # ps else (k', v') # dict_set k v ps)"

text \<open>
  What the code takes from outside: \<^verbatim>\<open>os.path.isdir\<close> on a string; the exception with which
  \<^verbatim>\<open>run_multiple_windfields\<close> ends when it is given a dictionary as scenario (it cannot
  return: \<^verbatim>\<open>os.path.splitext(scenario)\<close> on line 677 raises at the latest); and the text that
  \<^verbatim>\<open>'%s'\<close> gives for a value.
\<close>

record environment =
  isdir :: "string \<Rightarrow> bool"
  multiple :: "params \<Rightarrow> py_error"
  fmt :: "pval \<Rightarrow> string"

text \<open>One terminal run: the parameters and the comment with which \<^verbatim>\<open>AIM\<close> is instantiated.
  The run of the model itself is outside this development.\<close>

record expanded_run =
  run_params :: params
  run_comment :: pval

text \<open>Lines 119 to 125 of \<^verbatim>\<open>run_scenario\<close>: a dictionary without \<^verbatim>\<open>scenario_name\<close> gets the
  default name, in place.\<close>

definition with_scenario_name :: "params \<Rightarrow> params" where
  "with_scenario_name scenario =
     (case map_of scenario ''scenario_name'' of
        Some scenario_name \<Rightarrow> scenario
      | None \<Rightarrow> dict_set ''scenario_name'' (Str ''no_name'') scenario)"

text \<open>\<^verbatim>\<open>if dircomment is None: dircomment = params['eruption_comment']\<close>.\<close>

definition default_comment :: "params \<Rightarrow> pval option \<Rightarrow> py_error + pval" where
  "default_comment params dircomment =
     (case dircomment of
        Some c \<Rightarrow> Inr c
      | None \<Rightarrow> (case map_of params ''eruption_comment'' of
                   None \<Rightarrow> Inl KeyError
                 | Some c \<Rightarrow> Inr c))"

text \<open>\<^verbatim>\<open>for name in params: p = params[name]; if type(p) is tuple:\<close> the first name, in
  iteration order, whose value is a tuple.\<close>

fun for_name :: "params \<Rightarrow> string list \<Rightarrow> (string \<times> pval list) option" where
  "for_name params [] = None"
| "for_name params (name # names) =
     (case map_of params name of
        Some (Tuple p) \<Rightarrow> Some (name, p)
      | _ \<Rightarrow> for_name params names)"

text \<open>
  A value is scalar when it is not a tuple; a dictionary is flat when the values of its
  tuples are scalar. The width of a value is the number of values it stands for, and
  the size of the sweep of a dictionary is the product of the widths of its values: the
  product of the lengths of its tuples.
\<close>

definition scalar :: "pval \<Rightarrow> bool" where
  "scalar v = (case v of Tuple vs \<Rightarrow> False | _ \<Rightarrow> True)"

definition flat :: "params \<Rightarrow> bool" where
  "flat ps = list_all (\<lambda>(k, v). case v of Tuple vs \<Rightarrow> list_all scalar vs | _ \<Rightarrow> True) ps"

definition width :: "pval \<Rightarrow> nat" where
  "width v = (case v of Tuple vs \<Rightarrow> length vs | _ \<Rightarrow> 1)"

definition sweep_size :: "params \<Rightarrow> nat" where
  "sweep_size ps = prod_list (map (\<lambda>(k, v). width v) ps)"

text \<open>The text of \<^verbatim>\<open>'%s'\<close> for a string and for an integer. The text of a tuple is not
  modelled; the examples below do not format one.\<close>

definition scalar_text :: "pval \<Rightarrow> string" where
  "scalar_text v = (case v of Str s \<Rightarrow> s | Num n \<Rightarrow> fmt_i n | Tuple vs \<Rightarrow> [])"

text \<open>The items of a dictionary other than one key.\<close>

definition others :: "string \<Rightarrow> params \<Rightarrow> params" where
  "others name ps = filter (\<lambda>(k, v). k \<noteq> name) ps"

text \<open>The number of items whose value is a tuple.\<close>

definition ntup :: "params \<Rightarrow> nat" where
  "ntup ps = length (filter (\<lambda>(k, v). \<not> scalar v) ps)"

text \<open>
  The parameter sets with one wind field: the keys are distinct (it is a dictionary), the
  values of every tuple are scalar, and \<^verbatim>\<open>wind_profile\<close> is a string that does not name a
  directory.
\<close>

definition well_formed :: "environment \<Rightarrow> params \<Rightarrow> bool" where
  "well_formed E ps \<longleftrightarrow>
     distinct (map fst ps) \<and> flat ps
     \<and> (case map_of ps ''wind_profile'' of Some (Str w) \<Rightarrow> \<not> isdir E w | _ \<Rightarrow> False)"



text \<open>An environment for the examples: \<^verbatim>\<open>winds\<close> is the only directory.\<close>

definition example_environment :: environment where
  "example_environment =
     \<lparr>isdir = (\<lambda>w. w = ''winds''), multiple = (\<lambda>scenario. AttributeError),
      fmt = scalar_text\<rparr>"

text \<open>The number of tuples in a value and in the values of a dictionary: what decreases
  along the recursion.\<close>

fun tuples :: "pval \<Rightarrow> nat" where
  "tuples (Str s) = 0"
| "tuples (Num n) = 0"
| "tuples (Tuple vs) = Suc (sum_list (map tuples vs))"

definition weight :: "params \<Rightarrow> nat" where
  "weight ps = (\<Sum>k\<in>fst ` set ps. tuples (the (map_of ps k)))"

definition weight_except :: "string \<Rightarrow> params \<Rightarrow> nat" where
  "weight_except name ps = (\<Sum>k\<in>fst ` set ps - {name}. tuples (the (map_of ps k)))"

text \<open>Facts about the weight, used to show that the recursion below ends.\<close>

lemma keys_dict_set_list: "set (map fst (dict_set k v ps)) = insert k (set (map fst ps))"
proof (induction ps)
  case Nil
  show ?case by simp
next
  case (Cons a ps)
  obtain k' v' where a: "a = (k', v')" by (cases a)
  show ?case
  proof (cases "k' = k")
    case True
    then show ?thesis by (simp add: a)
  next
    case False
    then show ?thesis using Cons.IH by (simp add: a insert_commute)
  qed
qed

lemma keys_dict_set: "fst ` set (dict_set k v ps) = insert k (fst ` set ps)"
  using keys_dict_set_list [of k v ps] by simp

lemma map_of_dict_set: "map_of (dict_set k v ps) = (map_of ps)(k \<mapsto> v)"
  by (induction ps) auto

lemma weight_split:
  "name \<in> fst ` set ps \<Longrightarrow>
     weight ps = tuples (the (map_of ps name)) + weight_except name ps"
  unfolding weight_def weight_except_def by (rule sum.remove) simp_all

lemma weight_except_absent:
  "name \<notin> fst ` set ps \<Longrightarrow> weight_except name ps = weight ps"
  by (simp add: weight_def weight_except_def)

lemma weight_except_dict_set_same:
  "weight_except name (dict_set name v ps) = weight_except name ps"
  unfolding weight_except_def keys_dict_set map_of_dict_set
  by (rule sum.cong) auto

lemma weight_dict_set: "weight (dict_set name v ps) = tuples v + weight_except name ps"
  using weight_split [of name "dict_set name v ps"]
  by (simp add: keys_dict_set map_of_dict_set weight_except_dict_set_same)

lemma weight_except_dict_set_other:
  assumes "k \<noteq> name" and "k \<notin> fst ` set ps"
  shows "weight_except name (dict_set k v ps) = tuples v + weight_except name ps"
proof -
  have "weight_except name (dict_set k v ps)
      = (\<Sum>x\<in>insert k (fst ` set ps - {name}). tuples (the (map_of (dict_set k v ps) x)))"
    unfolding weight_except_def keys_dict_set using assms(1)
    by (intro sum.cong) auto
  also have "\<dots> = tuples v + (\<Sum>x\<in>fst ` set ps - {name}. tuples (the (map_of (dict_set k v ps) x)))"
    using assms(2) by (subst sum.insert) (simp_all add: map_of_dict_set)
  also have "(\<Sum>x\<in>fst ` set ps - {name}. tuples (the (map_of (dict_set k v ps) x)))
      = weight_except name ps"
    unfolding weight_except_def using assms(2)
    by (intro sum.cong) (auto simp: map_of_dict_set)
  finally show ?thesis .
qed

lemma map_of_None_keys: "map_of ps k = None \<longleftrightarrow> k \<notin> fst ` set ps"
  by (simp add: map_of_eq_None_iff)

lemma weight_with_scenario_name: "weight (with_scenario_name ps) = weight ps"
  by (auto simp: with_scenario_name_def weight_dict_set weight_except_absent map_of_None_keys
           split: option.splits)

lemma weight_except_with_scenario_name:
  "weight_except name (with_scenario_name ps) = weight_except name ps"
proof (cases "map_of ps ''scenario_name''")
  case None
  then have absent: "''scenario_name'' \<notin> fst ` set ps"
    by (simp add: map_of_None_keys)
  show ?thesis
  proof (cases "name = ''scenario_name''")
    case True
    with None show ?thesis
      by (simp add: with_scenario_name_def weight_except_dict_set_same)
  next
    case False
    then have "''scenario_name'' \<noteq> name" by simp
    from weight_except_dict_set_other [OF this absent] None show ?thesis
      by (simp add: with_scenario_name_def)
  qed
next
  case (Some v)
  then show ?thesis by (simp add: with_scenario_name_def)
qed

lemma for_name_Some:
  "for_name ps names = Some (name, p) \<Longrightarrow> name \<in> set names \<and> map_of ps name = Some (Tuple p)"
  by (induction names) (auto split: option.splits pval.splits)

text \<open>
  \<^verbatim>\<open>_run_scenario\<close> (here \<open>u_run_scenario\<close>), its inner loop \<^verbatim>\<open>for value in p\<close> (\<open>sweep\<close>) and
  \<^verbatim>\<open>run_scenario\<close> for a dictionary, through which the loop calls back. The scenario is a
  dictionary, and \<^verbatim>\<open>get_scenario_parameters\<close> gives that dictionary itself.
  \<^verbatim>\<open>dircomment + '_%s_%s' % (name, value)\<close> needs a string on the left, and
  \<^verbatim>\<open>os.path.isdir\<close> a string as argument: anything else is a \<^verbatim>\<open>TypeError\<close>. The dictionary
  \<^verbatim>\<open>params_unpacked\<close> is one object for the whole loop, so the name that \<^verbatim>\<open>run_scenario\<close>
  adds to it stays for the next value.
\<close>

function u_run_scenario ::
    "environment \<Rightarrow> params \<Rightarrow> pval option \<Rightarrow> py_error + expanded_run list"
  and sweep ::
    "environment \<Rightarrow> string \<Rightarrow> pval list \<Rightarrow> params \<Rightarrow> pval \<Rightarrow> py_error + expanded_run list"
  and run_scenario ::
    "environment \<Rightarrow> params \<Rightarrow> pval option \<Rightarrow> py_error + expanded_run list"
where
  "u_run_scenario E scenario dircomment =
     (let params = scenario in
      case default_comment params dircomment of
        Inl err \<Rightarrow> Inl err
      | Inr dircomment \<Rightarrow>
          (case for_name params (map fst params) of
             Some (name, p) \<Rightarrow> sweep E name p params dircomment
           | None \<Rightarrow> Inr [\<lparr>run_params = params, run_comment = dircomment\<rparr>]))"
| "sweep E name [] params_unpacked dircomment = Inr []"
| "sweep E name (value # rest) params_unpacked dircomment =
     (let params_unpacked = dict_set name value params_unpacked in
      case dircomment of
        Str d \<Rightarrow>
          (case run_scenario E params_unpacked
                  (Some (Str (d @ ''_'' @ name @ ''_'' @ fmt E value))) of
             Inl err \<Rightarrow> Inl err
           | Inr runs \<Rightarrow>
               (case sweep E name rest (with_scenario_name params_unpacked) dircomment of
                  Inl err \<Rightarrow> Inl err
                | Inr later \<Rightarrow> Inr (runs @ later)))
      | _ \<Rightarrow> Inl TypeError)"
| "run_scenario E scenario dircomment =
     (let scenario = with_scenario_name scenario;
          params = scenario in
      case default_comment params dircomment of
        Inl err \<Rightarrow> Inl err
      | Inr dircomment \<Rightarrow>
          (case map_of params ''wind_profile'' of
             None \<Rightarrow> Inl KeyError
           | Some (Str wind_profile) \<Rightarrow>
               if isdir E wind_profile then Inl (multiple E scenario)
               else u_run_scenario E scenario (Some dircomment)
           | Some other \<Rightarrow> Inl TypeError))"
  by pat_completeness auto

termination
proof (relation "inv_image (less_than <*lex*> less_than)
    (\<lambda>x. case x of
            Inl (E, scenario, dircomment) \<Rightarrow> (weight scenario, 0)
          | Inr (Inl (E, name, vals, params_unpacked, dircomment)) \<Rightarrow>
              (weight_except name params_unpacked + sum_list (map tuples vals),
               2 + length vals)
          | Inr (Inr (E, scenario, dircomment)) \<Rightarrow> (weight scenario, 1))", goal_cases)
  case 1
  show ?case by (intro wf_inv_image wf_lex_prod wf_less_than)
next
  case (2 E scenario dircomment x b x2 xa y)
  then have f: "for_name scenario (map fst scenario) = Some (xa, y)" by simp
  from for_name_Some [OF f] have "xa \<in> fst ` set scenario" "map_of scenario xa = Some (Tuple y)"
    by simp_all
  with weight_split [of xa scenario] 2 show ?case by simp
next
  case (3 E name "value" rest params_unpacked dircomment x x1)
  then show ?case
    by (auto simp: weight_dict_set)
next
  case (4 E name "value" rest params_unpacked dircomment x x1 b)
  then show ?case
    by (simp add: weight_except_with_scenario_name weight_except_dict_set_same) auto
next
  case (5 E scenario dircomment x xa b x2 x1)
  then show ?case
    by (simp add: weight_with_scenario_name)
qed

declare u_run_scenario.simps [simp del] sweep.simps(2) [simp del] run_scenario.simps [simp del]

section \<open>Properties of the wind profile patcher\<close>

subsection \<open>Lines of a file\<close>

lemma concat_readlines: "concat (readlines s) = s"
  by (induction s) (auto split: list.splits)

lemma readlines_Nil_iff: "readlines s = [] \<longleftrightarrow> s = []"
  by (cases s) (auto split: list.splits)

lemma readlines_line: "nl \<notin> set a \<Longrightarrow> readlines (a @ nl # b) = (a @ [nl]) # readlines b"
  by (induction a) auto

lemma readlines_last_line: "nl \<notin> set a \<Longrightarrow> a \<noteq> [] \<Longrightarrow> readlines a = [a]"
proof (induction a)
  case Nil
  then show ?case by simp
next
  case (Cons c a)
  then show ?case by (cases "a = []") auto
qed

lemma readlines_Cons:
  "readlines s = l # ls \<Longrightarrow>
     ls = readlines (drop (length l) s) \<and> l \<noteq> [] \<and> nl \<notin> set (butlast l)
     \<and> (ls \<noteq> [] \<longrightarrow> last l = nl)"
proof (induction s arbitrary: l ls)
  case Nil
  then show ?case by simp
next
  case (Cons c cs)
  show ?case
  proof (cases "c = nl")
    case True
    with Cons.prems show ?thesis by auto
  next
    case False
    show ?thesis
    proof (cases "readlines cs")
      case Nil
      with False Cons.prems show ?thesis by (auto simp: readlines_Nil_iff)
    next
      case (Cons l' ls')
      with False Cons.prems have l: "l = c # l'" and ls: "ls = ls'" by auto
      from Cons.IH [OF Cons] l ls False show ?thesis by auto
    qed
  qed
qed

lemma readlines_tail: "readlines s = l # ls \<Longrightarrow> readlines (concat ls) = ls"
proof -
  assume a: "readlines s = l # ls"
  have "s = l @ concat ls" using concat_readlines [of s] a by simp
  then have "drop (length l) s = concat ls" by simp
  with readlines_Cons [OF a] show ?thesis by simp
qed

lemma readlines_head_shape:
  "readlines s = l # ls \<Longrightarrow> ls \<noteq> [] \<Longrightarrow> \<exists>a. l = a @ [nl] \<and> nl \<notin> set a"
proof -
  assume a: "readlines s = l # ls" and b: "ls \<noteq> []"
  from readlines_Cons [OF a] b have "l \<noteq> []" "last l = nl" "nl \<notin> set (butlast l)" by auto
  then have "l = butlast l @ [nl]" by (metis append_butlast_last_id)
  with \<open>nl \<notin> set (butlast l)\<close> show ?thesis by blast
qed

lemma readlines_replace_head:
  assumes "readlines s = l # ls" and "nl \<notin> set a"
  shows "readlines ((a @ [nl]) @ concat ls) = (a @ [nl]) # ls"
  using assms readlines_line [of a "concat ls"] readlines_tail [OF assms(1)] by simp


subsection \<open>Vent location\<close>

text \<open>
  Claim C9. On a wind-profile file (a file that exists and has a first line),
  \<open>set_vent_location_in_windfield\<close> returns normally for every pair of arguments. The
  new file is the line \<^verbatim>\<open><easting> <northing>\<close> with its newline, followed by the bytes
  of every line after the first exactly as they were; no other file changes. When the
  text of the arguments has no newline in it, as for every number, the lines of the new
  file are the new line 1 followed by the old lines 2, 3, ... unchanged. The instance is a
  file of five lines.
\<close>

theorem set_vent_location_frame:
  assumes "fs filename = Some content" and "readlines content = l # ls"
  shows "\<exists>fs'. set_vent_location_in_windfield fs filename easting northing = Inr fs'
           \<and> (\<forall>f. f \<noteq> filename \<longrightarrow> fs' f = fs f)
           \<and> fs' filename = Some ((easting @ '' '' @ northing @ [nl]) @ concat ls)
           \<and> (nl \<notin> set easting \<and> nl \<notin> set northing \<longrightarrow>
                readlines (the (fs' filename)) = (easting @ '' '' @ northing @ [nl]) # ls)"
proof -
  let ?new = "easting @ '' '' @ northing @ [nl]"
  have run: "set_vent_location_in_windfield fs filename easting northing
               = Inr (fs(filename \<mapsto> ?new @ concat ls))"
    using assms by (simp add: set_vent_location_in_windfield_def)
  have lines: "readlines (?new @ concat ls) = ?new # ls"
    if "nl \<notin> set easting" and "nl \<notin> set northing"
    using readlines_replace_head [OF assms(2), of "easting @ '' '' @ northing"] that by simp
  show ?thesis
    unfolding run using lines by auto
qed

theorem set_vent_location_frame_witness:
  "\<exists>fs'. set_vent_location_in_windfield
            [''w.profile'' \<mapsto> ''1 2'' @ [nl] @ ''20090913'' @ [nl] @ ''0 21600'' @ [nl] @ ''1'' @ [nl] @ ''500 3 4'' @ [nl]]
            ''w.profile'' ''439423'' ''9167213'' = Inr fs'
       \<and> readlines (the (fs' ''w.profile''))
           = [''439423 9167213'' @ [nl], ''20090913'' @ [nl], ''0 21600'' @ [nl], ''1'' @ [nl], ''500 3 4'' @ [nl]]"
  using set_vent_location_frame
    [of "[''w.profile'' \<mapsto> ''1 2'' @ [nl] @ ''20090913'' @ [nl] @ ''0 21600'' @ [nl] @ ''1'' @ [nl] @ ''500 3 4'' @ [nl]]"
        "''w.profile''" "''1 2'' @ [nl] @ ''20090913'' @ [nl] @ ''0 21600'' @ [nl] @ ''1'' @ [nl] @ ''500 3 4'' @ [nl]"
        "''1 2'' @ [nl]" "[''20090913'' @ [nl], ''0 21600'' @ [nl], ''1'' @ [nl], ''500 3 4'' @ [nl]]"
        "''439423''" "''9167213''"]
  by auto


subsection \<open>Time blocks\<close>

lemma digit_char_isdigit: "d < 10 \<Longrightarrow> isdigit (digit_char d)"
proof -
  assume "d < 10"
  then have "digit_char d \<in> set ''0123456789''"
    unfolding digit_char_def by (intro nth_mem) simp
  then show ?thesis by (auto simp: isdigit_def)
qed

lemma digits_isdigit: "c \<in> set (digits n) \<Longrightarrow> isdigit c"
proof (induction n rule: digits.induct)
  case (1 n)
  show ?case
  proof (cases "n < 10")
    case True
    with "1.prems" show ?thesis
      by (subst (asm) digits.simps) (simp add: digit_char_isdigit)
  next
    case False
    with "1.prems" "1.IH" show ?thesis
      by (subst (asm) digits.simps) (auto simp: digit_char_isdigit)
  qed
qed

lemma nl_notin_fmt_i: "nl \<notin> set (fmt_i n)"
  using digits_isdigit [of nl] by (auto simp: fmt_i_def isdigit_def)

lemma rfind_append_notin: "c \<notin> set ys \<Longrightarrow> rfind (xs @ ys) c = rfind xs c"
  by (auto simp: rfind_def takeWhile_append)

lemma rfind_last: "rfind (xs @ [c]) c = int (length xs)"
  by (simp add: rfind_def)

lemma rfind_less: "rfind s c < int (length s)"
  by (simp add: rfind_def)

lemma rfind_ge: "- 1 \<le> rfind s c"
  using length_takeWhile_le [of "\<lambda>x. x \<noteq> c" "rev s"] by (simp add: rfind_def)

lemma splitext_hour_profile:
  "splitext (pre @ ''06.profile'') = (pre @ ''06'', ''.profile'')"
proof -
  let ?p = "pre @ ''06.profile''"
  let ?sep = "rfind ?p CHR ''/''"
  let ?dot = "rfind ?p CHR ''.''"
  have "rfind (((pre @ ''06'') @ ''.'') @ ''profile'') CHR ''.'' = rfind ((pre @ ''06'') @ ''.'') CHR ''.''"
    by (rule rfind_append_notin) simp
  also have "\<dots> = int (length (pre @ ''06''))"
    by (rule rfind_last)
  finally have dot: "?dot = int (length pre) + 2"
    by simp
  have "?sep = rfind pre CHR ''/''"
    by (rule rfind_append_notin) simp
  then have sep: "?sep < int (length pre)" and sep': "- 1 \<le> ?sep"
    using rfind_less [of pre "CHR ''/''"] rfind_ge [of pre "CHR ''/''"] by simp_all
  define k where "k = nat (?sep + 1)"
  have k: "k \<le> length pre" using sep sep' by (simp add: k_def)
  have n: "nat (?dot - (?sep + 1)) = length pre + 2 - k"
    using sep sep' dot by (simp add: k_def)
  have "(take (length pre + 2 - k) (drop k ?p)) ! (length pre - k) = CHR ''0''"
    using k by (simp add: nth_append)
  moreover have "length pre - k < length (take (length pre + 2 - k) (drop k ?p))"
    using k by simp
  ultimately have "CHR ''0'' \<in> set (take (length pre + 2 - k) (drop k ?p))"
    by (metis nth_mem)
  then have "list_ex (\<lambda>x. x \<noteq> CHR ''.'') (take (length pre + 2 - k) (drop k ?p))"
    unfolding list_ex_iff by (rule bexI [rotated]) simp
  then have ex: "list_ex (\<lambda>x. x \<noteq> CHR ''.'') (take (nat (?dot - (?sep + 1))) (drop (nat (?sep + 1)) ?p))"
    unfolding n k_def .
  have gt: "?dot > ?sep" using sep dot by simp
  have nd: "nat ?dot = length (pre @ ''06'')" using dot by simp
  have p: "?p = (pre @ ''06'') @ ''.profile''" by simp
  have tk: "take (nat ?dot) ?p = pre @ ''06''" and dr: "drop (nat ?dot) ?p = ''.profile''"
    unfolding nd by (subst p, simp only: take_append drop_append, simp)+
  from gt ex have c: "?dot > ?sep \<and> list_ex (\<lambda>x. x \<noteq> CHR ''.'')
      (take (nat (?dot - (?sep + 1))) (drop (nat (?sep + 1)) ?p))" by (rule conjI)
  show ?thesis
    unfolding splitext_def Let_def by (subst if_P [OF c]) (simp only: tk dr)
qed


lemma readlines_replace_third:
  assumes "readlines s = l1 # l2 # l3 # rest" and "nl \<notin> set a"
  shows "readlines (concat (l1 # l2 # (a @ [nl]) # rest)) = l1 # l2 # (a @ [nl]) # rest"
proof -
  from readlines_head_shape [OF assms(1)] obtain a1 where l1: "l1 = a1 @ [nl]" "nl \<notin> set a1"
    by auto
  have t1: "readlines (concat (l2 # l3 # rest)) = l2 # l3 # rest"
    by (rule readlines_tail [OF assms(1)])
  from readlines_head_shape [OF t1] obtain a2 where l2: "l2 = a2 @ [nl]" "nl \<notin> set a2"
    by auto
  have t2: "readlines (concat (l3 # rest)) = l3 # rest"
    by (rule readlines_tail [OF t1])
  have t3: "readlines (concat rest) = rest"
    by (rule readlines_tail [OF t2])
  have "readlines (a1 @ nl # a2 @ nl # a @ nl # concat rest)
          = (a1 @ [nl]) # (a2 @ [nl]) # (a @ [nl]) # readlines (concat rest)"
    using l1(2) l2(2) assms(2) by (simp add: readlines_line)
  then show ?thesis using l1(1) l2(1) t3 by simp
qed

lemma last2_hour: "last2 (pre @ [a, b]) = [a, b]"
  by (simp add: last2_def)

lemma py_int_06: "py_int ''06'' = Some 6"
  by (simp add: py_int_def strip_def isspace_def isdigit_def digits_value_def)

lemma fmt_i_21600: "fmt_i (6 * 3600) = ''21600''"
  by (simp add: fmt_i_def digits.simps digit_char_def)

lemma fmt_i_43200: "fmt_i ((6 + 6) * 3600) = ''43200''"
  by (simp add: fmt_i_def digits.simps digit_char_def)

text \<open>
  Claim C8. On a wind-profile file (a file that exists and has at least three lines),
  \<open>set_timeblocks_in_windfield\<close> reads the last two characters of the file name without
  its extension as an integer \<open>h\<close> by \<^verbatim>\<open>int()\<close>. It raises exactly when they are not an
  integer; otherwise line 3 becomes \<^verbatim>\<open><h*3600> <(h+6)*3600>\<close> with its newline, every
  other line and every other file stay as they were. For a file name that ends in
  \<^verbatim>\<open>06.profile\<close> the new line 3 is \<^verbatim>\<open>21600 43200\<close>.
\<close>

theorem set_timeblocks_in_windfield_correct:
  assumes "fs filename = Some content" and "readlines content = l1 # l2 # l3 # rest"
  shows "(py_int (last2 (fst (splitext filename))) = None
            \<longleftrightarrow> (\<exists>e. set_timeblocks_in_windfield fs filename = Inl e))
       \<and> (\<forall>h. py_int (last2 (fst (splitext filename))) = Some h \<longrightarrow>
            (\<exists>fs'. set_timeblocks_in_windfield fs filename = Inr fs'
               \<and> (\<forall>f. f \<noteq> filename \<longrightarrow> fs' f = fs f)
               \<and> readlines (the (fs' filename))
                   = l1 # l2 # (fmt_i (h * 3600) @ '' '' @ fmt_i ((h + 6) * 3600) @ [nl]) # rest))
       \<and> (\<forall>pre. filename = pre @ ''06.profile'' \<longrightarrow>
            (\<exists>fs'. set_timeblocks_in_windfield fs filename = Inr fs'
               \<and> readlines (the (fs' filename)) = l1 # l2 # (''21600 43200'' @ [nl]) # rest))"
proof -
  have run: "set_timeblocks_in_windfield fs filename
      = Inr (fs(filename \<mapsto> concat (l1 # l2 # (fmt_i (h * 3600) @ '' '' @ fmt_i ((h + 6) * 3600) @ [nl]) # rest)))"
    if "py_int (last2 (fst (splitext filename))) = Some h" for h
    using that assms by (simp add: set_timeblocks_in_windfield_def Let_def)
  have lines: "readlines (concat (l1 # l2 # (fmt_i (h * 3600) @ '' '' @ fmt_i ((h + 6) * 3600) @ [nl]) # rest))
      = l1 # l2 # (fmt_i (h * 3600) @ '' '' @ fmt_i ((h + 6) * 3600) @ [nl]) # rest" for h
    using readlines_replace_third [OF assms(2), of "fmt_i (h * 3600) @ '' '' @ fmt_i ((h + 6) * 3600)"]
      nl_notin_fmt_i by simp
  have ok: "\<exists>fs'. set_timeblocks_in_windfield fs filename = Inr fs'
               \<and> (\<forall>f. f \<noteq> filename \<longrightarrow> fs' f = fs f)
               \<and> readlines (the (fs' filename))
                   = l1 # l2 # (fmt_i (h * 3600) @ '' '' @ fmt_i ((h + 6) * 3600) @ [nl]) # rest"
    if "py_int (last2 (fst (splitext filename))) = Some h" for h
    unfolding run [OF that] using lines [of h] by simp
  have fails: "(py_int (last2 (fst (splitext filename))) = None)
      = (\<exists>e. set_timeblocks_in_windfield fs filename = Inl e)"
  proof (cases "py_int (last2 (fst (splitext filename)))")
    case None
    then show ?thesis by (simp add: set_timeblocks_in_windfield_def)
  next
    case (Some h)
    with run [OF Some] show ?thesis by simp
  qed
  have six: "\<exists>fs'. set_timeblocks_in_windfield fs filename = Inr fs'
               \<and> readlines (the (fs' filename)) = l1 # l2 # (''21600 43200'' @ [nl]) # rest"
    if "filename = pre @ ''06.profile''" for pre
  proof -
    have "last2 (fst (splitext filename)) = ''06''"
      using last2_hour [of pre "CHR ''0''" "CHR ''6''"] by (simp add: that splitext_hour_profile)
    then have "py_int (last2 (fst (splitext filename))) = Some 6"
      by (simp only: py_int_06)
    from ok [OF this] show ?thesis
      by (simp only: fmt_i_21600 fmt_i_43200) auto
  qed
  from fails ok six show ?thesis by blast
qed

theorem set_timeblocks_in_windfield_correct_witness:
  "\<exists>fs'. set_timeblocks_in_windfield
            [''ncep1_2009091306.profile'' \<mapsto> ''1 2'' @ [nl] @ ''20090913'' @ [nl] @ ''0 0'' @ [nl] @ ''0'' @ [nl]]
            ''ncep1_2009091306.profile'' = Inr fs'
       \<and> readlines (the (fs' ''ncep1_2009091306.profile''))
           = [''1 2'' @ [nl], ''20090913'' @ [nl], ''21600 43200'' @ [nl], ''0'' @ [nl]]"
proof -
  let ?content = "''1 2'' @ [nl] @ ''20090913'' @ [nl] @ ''0 0'' @ [nl] @ ''0'' @ [nl]"
  let ?fs = "[''ncep1_2009091306.profile'' \<mapsto> ?content]"
  have f: "?fs ''ncep1_2009091306.profile'' = Some ?content"
    by simp
  have r: "readlines ?content = (''1 2'' @ [nl]) # (''20090913'' @ [nl]) # (''0 0'' @ [nl]) # [''0'' @ [nl]]"
    by simp
  have n: "''ncep1_2009091306.profile'' = ''ncep1_20090913'' @ ''06.profile''"
    by simp
  note c = set_timeblocks_in_windfield_correct
    [of ?fs "''ncep1_2009091306.profile''" ?content
        "''1 2'' @ [nl]" "''20090913'' @ [nl]" "''0 0'' @ [nl]" "[''0'' @ [nl]]"]
  from c [OF f r] n show ?thesis
    by blast
qed

section \<open>Properties of the wind profile stitcher\<close>

lemma spec_block_range_shift:
  "spec_block_range (snd r, snd r + 21600) k = spec_block_range r (Suc k)"
  by (induction k) simp_all

lemma join_loop_rest_step:
  "join_loop fs False (s, e, n) (f # files) out =
     (case fs f of
        None \<Rightarrow> (out, Some IOError)
      | Some content \<Rightarrow>
          if int (length (drop 4 (readlines content))) \<noteq> n
          then (out @ take 2 (block_text (s, e) n (drop 4 (readlines content))), Some AssertionError)
          else join_loop fs False (e, e + 21600, n) files
                 (out @ block_text (s, e) n (drop 4 (readlines content))))"
  by (simp add: block_text_def Let_def split: option.splits)

lemma join_loop_rest_ok:
  "join_loop fs False (s, e, n) files out = (out', None) \<Longrightarrow>
     out' = out @ concat (map (\<lambda>k. block_text (spec_block_range (s, e) k) n
                                   (drop 4 (lines_of fs (files ! k)))) [0..<length files])"
proof (induction files arbitrary: s e out)
  case Nil
  then show ?case by simp
next
  case (Cons f files)
  from Cons.prems obtain content where c: "fs f = Some content"
    by (auto simp: join_loop_rest_step simp del: join_loop.simps split: option.splits)
  from Cons.prems c have n: "int (length (drop 4 (readlines content))) = n"
    and rest: "join_loop fs False (e, e + 21600, n) files
                 (out @ block_text (s, e) n (drop 4 (readlines content))) = (out', None)"
    by (auto simp: join_loop_rest_step simp del: join_loop.simps split: if_splits)
  have "out' = (out @ block_text (s, e) n (drop 4 (readlines content)))
          @ concat (map (\<lambda>k. block_text (spec_block_range (e, e + 21600) k) n
                               (drop 4 (lines_of fs (files ! k)))) [0..<length files])"
    by (rule Cons.IH [OF rest])
  also have "(\<lambda>k. block_text (spec_block_range (e, e + 21600) k) n (drop 4 (lines_of fs (files ! k))))
      = (\<lambda>k. block_text (spec_block_range (s, e) (Suc k)) n (drop 4 (lines_of fs ((f # files) ! Suc k))))"
    using spec_block_range_shift [of "(s, e)"] by simp
  finally show ?case
    using c by (simp add: map_upt_Suc lines_of_def del: upt_Suc spec_block_range.simps(2))
qed

lemma join_loop_rest_err:
  assumes "\<forall>f\<in>set files. fs f \<noteq> None"
  shows "snd (join_loop fs False (s, e, n) files out)
     = (if \<forall>f\<in>set files. int (length (drop 4 (lines_of fs f))) = n
        then None else Some AssertionError)"
  using assms
proof (induction files arbitrary: s e out)
  case Nil
  then show ?case by simp
next
  case (Cons f files)
  then obtain content where c: "fs f = Some content" by auto
  show ?case
  proof (cases "int (length (drop 4 (readlines content))) = n")
    case True
    with Cons c show ?thesis
      by (simp add: join_loop_rest_step lines_of_def del: join_loop.simps)
  next
    case False
    with c show ?thesis
      by (simp add: join_loop_rest_step lines_of_def del: join_loop.simps)
  qed
qed

lemma join_loop_first_step:
  "join_loop fs True st (f # files) [] =
     (case fs f of
        None \<Rightarrow> ([], Some IOError)
      | Some content \<Rightarrow>
          (case read_header (readlines content) of
             Inl err \<Rightarrow> ([], Some err)
           | Inr (header, s, e, n) \<Rightarrow>
               if int (length (drop 4 (readlines content))) \<noteq> n
               then (header @ take 2 (block_text (s, e) n (drop 4 (readlines content))), Some AssertionError)
               else join_loop fs False (e, e + 21600, n) files
                      (header @ block_text (s, e) n (drop 4 (readlines content)))))"
  by (cases st) (simp add: block_text_def Let_def split: option.splits sum.splits)


lemma those_Some: "those xs = Some ys \<Longrightarrow> xs = map Some ys"
  by (induction xs arbitrary: ys) (auto split: option.splits)

lemma read_header_Inr:
  assumes "read_header lines = Inr (header, s, e, n)"
  shows "header = [lines ! 0, lines ! 1]"
    and "map py_int (split_ws (lines ! 2)) = [Some s, Some e]"
    and "py_int (lines ! 3) = Some n"
proof -
  from assms have len: "\<not> length lines < 3"
    by (auto simp: read_header_def split: if_splits)
  from assms len obtain ts where ts: "those (map py_int (split_ws (lines ! 2))) = Some ts"
    by (auto simp: read_header_def split: option.splits)
  from assms len ts have two: "ts = [s, e]" and "py_int (lines ! 3) = Some n"
    and "header = [lines ! 0, lines ! 1]"
    by (auto simp: read_header_def split: list.splits if_splits option.splits)
  then show "header = [lines ! 0, lines ! 1]" and "py_int (lines ! 3) = Some n"
    by simp_all
  from those_Some [OF ts] two show "map py_int (split_ws (lines ! 2)) = [Some s, Some e]"
    by simp
qed

lemma lines_of_truncated:
  "f \<noteq> outfilename \<Longrightarrow> lines_of (fs(outfilename \<mapsto> c)) f = lines_of fs f"
  by (simp add: lines_of_def)

text \<open>
  Claim C4. Whenever \<open>join_sorted_windprofiles\<close> returns normally on a non-empty
  sequence of source files, none of which is the output file, the output is the vent
  location line and the date line of the first file, then one block per source file:
  the time-range line, the layer-count line and the lines after line 4 of that file.
  The time range of block 0 is the pair of integers read from line 3 of the first file;
  the time range of every later block starts at the end of the block before it and ends
  21600 seconds later, whatever line 3 of its own file says (that file enters the output
  only through its lines after line 4). So adjacent blocks are contiguous.
\<close>

theorem join_sorted_windprofiles_time_ranges:
  assumes "join_sorted_windprofiles creatable fs (f0 # files) outfilename = (fs', None)"
      and "outfilename \<notin> set (f0 # files)"
  shows "\<exists>vent date s e n.
           read_header (lines_of fs f0) = Inr ([vent, date], s, e, n)
         \<and> map py_int (split_ws (lines_of fs f0 ! 2)) = [Some s, Some e]
         \<and> fs' outfilename = Some (concat ([vent, date]
               @ concat (map (\<lambda>k. block_text (spec_block_range (s, e) k) n
                                     (drop 4 (lines_of fs ((f0 # files) ! k))))
                           [0..<Suc (length files)])))
         \<and> spec_block_range (s, e) 0 = (s, e)
         \<and> (\<forall>k. fst (spec_block_range (s, e) (Suc k)) = snd (spec_block_range (s, e) k)
                \<and> snd (spec_block_range (s, e) (Suc k))
                    = fst (spec_block_range (s, e) (Suc k)) + 21600)"
proof -
  let ?fs0 = "fs(outfilename \<mapsto> [])"
  obtain out where loop: "join_loop ?fs0 True (0, 0, 0) (f0 # files) [] = (out, None)"
    and fs': "fs' = ?fs0(outfilename \<mapsto> concat out)"
    using assms(1)
    by (auto simp: join_sorted_windprofiles_def Let_def split: prod.splits if_splits)
  from loop obtain content where c: "?fs0 f0 = Some content"
    by (auto simp: join_loop_first_step simp del: join_loop.simps split: option.splits)
  from loop c obtain header s e n where h: "read_header (readlines content) = Inr (header, s, e, n)"
    by (auto simp: join_loop_first_step simp del: join_loop.simps split: sum.splits)
  from loop c h have rest: "join_loop ?fs0 False (e, e + 21600, n) files
        (header @ block_text (s, e) n (drop 4 (readlines content))) = (out, None)"
    by (auto simp: join_loop_first_step simp del: join_loop.simps split: if_splits)
  have l0: "lines_of ?fs0 f0 = readlines content"
    using c by (simp add: lines_of_def)
  have same: "lines_of ?fs0 ((f0 # files) ! k) = lines_of fs ((f0 # files) ! k)"
    if "k < Suc (length files)" for k
  proof (rule lines_of_truncated)
    have "(f0 # files) ! k \<in> set (f0 # files)" using that by (intro nth_mem) simp
    with assms(2) show "(f0 # files) ! k \<noteq> outfilename" by auto
  qed
  from same [of 0] l0 have l0': "lines_of fs f0 = readlines content" by simp
  have "out = (header @ block_text (s, e) n (drop 4 (readlines content)))
          @ concat (map (\<lambda>k. block_text (spec_block_range (e, e + 21600) k) n
                               (drop 4 (lines_of ?fs0 (files ! k)))) [0..<length files])"
    by (rule join_loop_rest_ok [OF rest])
  also have "(\<lambda>k. block_text (spec_block_range (e, e + 21600) k) n (drop 4 (lines_of ?fs0 (files ! k))))
      = (\<lambda>k. block_text (spec_block_range (s, e) (Suc k)) n
               (drop 4 (lines_of ?fs0 ((f0 # files) ! Suc k))))"
    using spec_block_range_shift [of "(s, e)"] by simp
  finally have "out = header @ concat (map (\<lambda>k. block_text (spec_block_range (s, e) k) n
                               (drop 4 (lines_of ?fs0 ((f0 # files) ! k)))) [0..<Suc (length files)])"
    using l0 by (simp add: map_upt_Suc del: upt_Suc spec_block_range.simps(2))
  also have "map (\<lambda>k. block_text (spec_block_range (s, e) k) n
                               (drop 4 (lines_of ?fs0 ((f0 # files) ! k)))) [0..<Suc (length files)]
      = map (\<lambda>k. block_text (spec_block_range (s, e) k) n
                               (drop 4 (lines_of fs ((f0 # files) ! k)))) [0..<Suc (length files)]"
    by (rule map_cong [OF refl]) (simp add: same del: upt_Suc)
  finally have out: "out = header @ concat (map (\<lambda>k. block_text (spec_block_range (s, e) k) n
                               (drop 4 (lines_of fs ((f0 # files) ! k)))) [0..<Suc (length files)])" .
  from read_header_Inr [OF h] l0' obtain vent date where
    hd: "header = [vent, date]" and toks: "map py_int (split_ws (lines_of fs f0 ! 2)) = [Some s, Some e]"
    by auto
  have A: "read_header (lines_of fs f0) = Inr ([vent, date], s, e, n)"
    using h hd l0' by simp
  have B: "fs' outfilename = Some (concat ([vent, date]
               @ concat (map (\<lambda>k. block_text (spec_block_range (s, e) k) n
                                     (drop 4 (lines_of fs ((f0 # files) ! k))))
                           [0..<Suc (length files)])))"
    unfolding fs' out hd by simp
  have C: "spec_block_range (s, e) 0 = (s, e)" by simp
  have D: "\<forall>k. fst (spec_block_range (s, e) (Suc k)) = snd (spec_block_range (s, e) k)
                \<and> snd (spec_block_range (s, e) (Suc k))
                    = fst (spec_block_range (s, e) (Suc k)) + 21600"
    by simp
  show ?thesis
    by (rule exI [of _ vent], rule exI [of _ date], rule exI [of _ s], rule exI [of _ e],
        rule exI [of _ n]) (intro conjI A toks B C D)
qed


lemmas eval_text =
  lines_of_def read_header_def py_int_def strip_def isspace_def isdigit_def digits_value_def
  fmt_i_def digits.simps digit_char_def

text \<open>
  Two files of two layers each: the second file records the range \<^verbatim>\<open>5 6\<close>, the output
  has \<^verbatim>\<open>21600 43200\<close> for it.
\<close>

theorem join_sorted_windprofiles_time_ranges_witness:
  "join_sorted_windprofiles any_name
     [''a'' \<mapsto> ''1 2'' @ [nl] @ ''20090913'' @ [nl] @ ''0 21600'' @ [nl] @ ''2'' @ [nl]
                 @ ''500 3 4'' @ [nl] @ ''900 1 1'' @ [nl],
      ''b'' \<mapsto> ''7 7'' @ [nl] @ ''20090914'' @ [nl] @ ''5 6'' @ [nl] @ ''2'' @ [nl]
                 @ ''500 8 8'' @ [nl] @ ''900 9 9'' @ [nl]]
     [''a'', ''b''] ''o''
   = ([''a'' \<mapsto> ''1 2'' @ [nl] @ ''20090913'' @ [nl] @ ''0 21600'' @ [nl] @ ''2'' @ [nl]
                 @ ''500 3 4'' @ [nl] @ ''900 1 1'' @ [nl],
       ''b'' \<mapsto> ''7 7'' @ [nl] @ ''20090914'' @ [nl] @ ''5 6'' @ [nl] @ ''2'' @ [nl]
                 @ ''500 8 8'' @ [nl] @ ''900 9 9'' @ [nl],
       ''o'' \<mapsto> ''1 2'' @ [nl] @ ''20090913'' @ [nl]
                 @ ''0 21600'' @ [nl] @ ''2'' @ [nl] @ ''500 3 4'' @ [nl] @ ''900 1 1'' @ [nl]
                 @ ''21600 43200'' @ [nl] @ ''2'' @ [nl] @ ''500 8 8'' @ [nl] @ ''900 9 9'' @ [nl]],
      None)"
  (is "join_sorted_windprofiles any_name ?fs ?files ?o = (?fs', None)")
proof -
  have ok: "snd (join_sorted_windprofiles any_name ?fs ?files ?o) = None"
    by (simp add: join_sorted_windprofiles_def any_name_def eval_text)
  then have run: "join_sorted_windprofiles any_name ?fs ?files ?o
                   = (fst (join_sorted_windprofiles any_name ?fs ?files ?o), None)"
    by (simp add: prod_eq_iff)
  have fresh: "?o \<notin> set ?files"
    by simp
  have rest: "fst (join_sorted_windprofiles any_name ?fs ?files ?o) f = ?fs f" if "f \<noteq> ?o" for f
    using that
    by (simp add: join_sorted_windprofiles_def any_name_def Let_def split: prod.splits)
  have hdr: "read_header (lines_of ?fs ''a'')
               = Inr ([''1 2'' @ [nl], ''20090913'' @ [nl]], 0, 21600, 2)"
    by (simp add: eval_text)
  from join_sorted_windprofiles_time_ranges [OF run fresh] hdr
  have "fst (join_sorted_windprofiles any_name ?fs ?files ?o) ?o
          = Some (concat ([''1 2'' @ [nl], ''20090913'' @ [nl]]
               @ concat (map (\<lambda>k. block_text (spec_block_range (0, 21600) k) 2
                                     (drop 4 (lines_of ?fs (?files ! k))))
                           [0..<Suc (length [''b''])])))"
    by auto
  then have out: "fst (join_sorted_windprofiles any_name ?fs ?files ?o) ?o = ?fs' ?o"
    by (simp add: block_text_def eval_text upt_rec)
  have "fst (join_sorted_windprofiles any_name ?fs ?files ?o) = ?fs'"
  proof
    fix f show "fst (join_sorted_windprofiles any_name ?fs ?files ?o) f = ?fs' f"
      using out rest [of f] by (cases "f = ?o") simp_all
  qed
  with run show ?thesis by simp
qed


text \<open>
  Claim C5, as the code has it. Let all source files exist, none of them be the output
  file, and the header of the first file be readable, with \<open>n\<close> the layer count declared
  on line 4 of the first file. When the output file cannot be opened for writing, the
  stitcher raises \<^verbatim>\<open>IOError\<close> and leaves the file system as it was. When it can, the
  stitcher raises \<^verbatim>\<open>AssertionError\<close> exactly when some source file, first or subsequent,
  has a number of lines after line 4 different from \<open>n\<close>; otherwise it returns normally.
  Line 4 of a subsequent file is never read.
\<close>

theorem join_sorted_windprofiles_layer_check:
  assumes "\<forall>f\<in>set (f0 # files). fs f \<noteq> None \<and> f \<noteq> outfilename"
      and "read_header (lines_of fs f0) = Inr (header, s, e, n)"
  shows "py_int (lines_of fs f0 ! 3) = Some n
       \<and> (\<not> creatable outfilename \<longrightarrow>
            join_sorted_windprofiles creatable fs (f0 # files) outfilename = (fs, Some IOError))
       \<and> (creatable outfilename \<longrightarrow>
            snd (join_sorted_windprofiles creatable fs (f0 # files) outfilename)
              = (if \<forall>f\<in>set (f0 # files). int (length (drop 4 (lines_of fs f))) = n
                 then None else Some AssertionError))"
proof -
  let ?fs0 = "fs(outfilename \<mapsto> [])"
  from assms(1) obtain content where c: "fs f0 = Some content" and f0: "f0 \<noteq> outfilename"
    by auto
  then have c0: "?fs0 f0 = Some content" by simp
  have h: "read_header (readlines content) = Inr (header, s, e, n)"
    using assms(2) c by (simp add: lines_of_def)
  have ex: "\<forall>f\<in>set files. ?fs0 f \<noteq> None"
    using assms(1) by auto
  have same: "lines_of ?fs0 f = lines_of fs f" if "f \<in> set files" for f
    using that assms(1) by (intro lines_of_truncated) auto
  have l0: "lines_of fs f0 = readlines content"
    using c by (simp add: lines_of_def)
  have closed: "join_sorted_windprofiles creatable fs (f0 # files) outfilename
                  = (fs, Some IOError)"
    if "\<not> creatable outfilename"
    using that by (simp add: join_sorted_windprofiles_def)
  have opened: "snd (join_sorted_windprofiles creatable fs (f0 # files) outfilename)
              = (if \<forall>f\<in>set (f0 # files). int (length (drop 4 (lines_of fs f))) = n
                 then None else Some AssertionError)"
    if cr: "creatable outfilename"
  proof -
    have "snd (join_sorted_windprofiles creatable fs (f0 # files) outfilename)
            = snd (join_loop ?fs0 True (0, 0, 0) (f0 # files) [])"
      using cr by (simp add: join_sorted_windprofiles_def Let_def split: prod.splits)
    also have "\<dots> = (if int (length (drop 4 (readlines content))) \<noteq> n then Some AssertionError
                     else snd (join_loop ?fs0 False (e, e + 21600, n) files
                                 (header @ block_text (s, e) n (drop 4 (readlines content)))))"
      using c0 h by (simp add: join_loop_first_step del: join_loop.simps)
    also have "\<dots> = (if int (length (drop 4 (readlines content))) \<noteq> n then Some AssertionError
                     else if \<forall>f\<in>set files. int (length (drop 4 (lines_of ?fs0 f))) = n
                          then None else Some AssertionError)"
      by (simp only: join_loop_rest_err [OF ex])
    also have "\<dots> = (if \<forall>f\<in>set (f0 # files). int (length (drop 4 (lines_of fs f))) = n
                     then None else Some AssertionError)"
      using same l0 by auto
    finally show ?thesis .
  qed
  from closed opened read_header_Inr(3) [OF assms(2)] show ?thesis
    by blast
qed

text \<open>
  The first file declares three layers and has three; the second declares two and has
  two, in agreement with its own line 4: the stitcher raises. With an output file that
  cannot be opened, it raises \<^verbatim>\<open>IOError\<close> and changes nothing.
\<close>

theorem join_sorted_windprofiles_layer_check_witness:
  "snd (join_sorted_windprofiles any_name
     [''b'' \<mapsto> ''7 7'' @ [nl] @ ''20090914'' @ [nl] @ ''5 6'' @ [nl] @ ''2'' @ [nl]
                 @ ''500 8 8'' @ [nl] @ ''900 9 9'' @ [nl],
      ''a'' \<mapsto> ''1 2'' @ [nl] @ ''20090913'' @ [nl] @ ''0 21600'' @ [nl] @ ''3'' @ [nl]
                 @ ''500 3 4'' @ [nl] @ ''900 1 1'' @ [nl] @ ''950 1 1'' @ [nl]]
     [''a'', ''b''] ''o'') = Some AssertionError
   \<and> join_sorted_windprofiles (\<lambda>name. name \<noteq> ''nodir/o'')
     [''b'' \<mapsto> ''7 7'' @ [nl] @ ''20090914'' @ [nl] @ ''5 6'' @ [nl] @ ''2'' @ [nl]
                 @ ''500 8 8'' @ [nl] @ ''900 9 9'' @ [nl],
      ''a'' \<mapsto> ''1 2'' @ [nl] @ ''20090913'' @ [nl] @ ''0 21600'' @ [nl] @ ''3'' @ [nl]
                 @ ''500 3 4'' @ [nl] @ ''900 1 1'' @ [nl] @ ''950 1 1'' @ [nl]]
     [''a'', ''b''] ''nodir/o''
     = ([''b'' \<mapsto> ''7 7'' @ [nl] @ ''20090914'' @ [nl] @ ''5 6'' @ [nl] @ ''2'' @ [nl]
                 @ ''500 8 8'' @ [nl] @ ''900 9 9'' @ [nl],
         ''a'' \<mapsto> ''1 2'' @ [nl] @ ''20090913'' @ [nl] @ ''0 21600'' @ [nl] @ ''3'' @ [nl]
                 @ ''500 3 4'' @ [nl] @ ''900 1 1'' @ [nl] @ ''950 1 1'' @ [nl]],
        Some IOError)"
  (is "snd (join_sorted_windprofiles any_name ?fs ?files ?o) = _
       \<and> join_sorted_windprofiles ?cr ?fs ?files ?o' = _")
proof -
  have ex: "\<forall>f\<in>set [''a'', ''b'']. ?fs f \<noteq> None \<and> f \<noteq> ''o''"
    by simp
  have ex': "\<forall>f\<in>set [''a'', ''b'']. ?fs f \<noteq> None \<and> f \<noteq> ''nodir/o''"
    by simp
  have hdr: "read_header (lines_of ?fs ''a'')
               = Inr ([''1 2'' @ [nl], ''20090913'' @ [nl]], 0, 21600, 3)"
    by (simp add: eval_text)
  have bad: "\<not> (\<forall>f\<in>set [''a'', ''b'']. int (length (drop 4 (lines_of ?fs f))) = 3)"
    by (simp add: lines_of_def)
  have yes: "any_name ''o''"
    by (simp add: any_name_def)
  have no: "\<not> ?cr ''nodir/o''"
    by simp
  from join_sorted_windprofiles_layer_check [OF ex hdr, of any_name] yes
  have "snd (join_sorted_windprofiles any_name ?fs ?files ?o)
          = (if \<forall>f\<in>set [''a'', ''b'']. int (length (drop 4 (lines_of ?fs f))) = 3
             then None else Some AssertionError)"
    by blast
  with bad have A: "snd (join_sorted_windprofiles any_name ?fs ?files ?o) = Some AssertionError"
    by (simp only: if_False)
  from join_sorted_windprofiles_layer_check [OF ex' hdr, of ?cr] no
  have B: "join_sorted_windprofiles ?cr ?fs ?files ?o' = (?fs, Some IOError)"
    by blast
  from A B show ?thesis ..
qed

text \<open>
  Claim C5 as stated fails. The first file declares two layers and has two; the second
  declares three and has only two lines after line 4. The stitcher does not raise: it
  returns normally.
\<close>

theorem join_sorted_windprofiles_own_count_counterexample:
  "snd (join_sorted_windprofiles any_name
     [''a'' \<mapsto> ''1 2'' @ [nl] @ ''20090913'' @ [nl] @ ''0 21600'' @ [nl] @ ''2'' @ [nl]
                 @ ''500 3 4'' @ [nl] @ ''900 1 1'' @ [nl],
      ''b'' \<mapsto> ''7 7'' @ [nl] @ ''20090914'' @ [nl] @ ''5 6'' @ [nl] @ ''3'' @ [nl]
                 @ ''500 8 8'' @ [nl] @ ''900 9 9'' @ [nl]]
     [''a'', ''b''] ''o'') = None
   \<and> py_int (lines_of
     [''a'' \<mapsto> ''1 2'' @ [nl] @ ''20090913'' @ [nl] @ ''0 21600'' @ [nl] @ ''2'' @ [nl]
                 @ ''500 3 4'' @ [nl] @ ''900 1 1'' @ [nl],
      ''b'' \<mapsto> ''7 7'' @ [nl] @ ''20090914'' @ [nl] @ ''5 6'' @ [nl] @ ''3'' @ [nl]
                 @ ''500 8 8'' @ [nl] @ ''900 9 9'' @ [nl]] ''b'' ! 3) = Some 3
   \<and> length (drop 4 (lines_of
     [''a'' \<mapsto> ''1 2'' @ [nl] @ ''20090913'' @ [nl] @ ''0 21600'' @ [nl] @ ''2'' @ [nl]
                 @ ''500 3 4'' @ [nl] @ ''900 1 1'' @ [nl],
      ''b'' \<mapsto> ''7 7'' @ [nl] @ ''20090914'' @ [nl] @ ''5 6'' @ [nl] @ ''3'' @ [nl]
                 @ ''500 8 8'' @ [nl] @ ''900 9 9'' @ [nl]] ''b'')) = 2"
  by (simp add: join_sorted_windprofiles_def any_name_def eval_text)

section \<open>Properties of the distributed job scheduler\<close>

lemma units_append: "units (a @ b) = units a @ units b"
  by (induction a rule: units.induct) simp_all

lemma windfield_loop_ok:
  assumes "0 < P" and "\<forall>i w. engine i w"
  shows "\<exists>st'. windfield_loop P p engine dir folder xs st = (st', None)
           \<and> count_all st' = count_all st + length xs
           \<and> count_local st' = count_local st + length (own_units P p dir xs)
           \<and> units (trace st') = units (trace st) @ own_units P p dir xs"
proof (induction xs arbitrary: st)
  case Nil
  then show ?case by (simp add: own_units_def)
next
  case (Cons x xs)
  obtain i f where x: "x = (i, f)" by (cases x)
  have e: "engine i (dir @ ''/'' @ f)" using assms(2) by simp
  show ?case
  proof (cases "i mod P = p \<and> endswith f ''.profile''")
    case True
    let ?st = "st\<lparr>count_all := count_all st + 1, count_local := count_local st + 1,
                 trace := trace st
                           @ [RunScenario i (dir @ ''/'' @ f), Makedir folder,
                              Chmod folder, CopyResult (fst (splitext f)) folder]
                           @ (if i = 0 then [CopyProjection folder] else [])
                           @ [Cleanup i]\<rparr>"
    from Cons.IH [of ?st] obtain st' where
      "windfield_loop P p engine dir folder xs ?st = (st', None)"
      "count_all st' = count_all ?st + length xs"
      "count_local st' = count_local ?st + length (own_units P p dir xs)"
      "units (trace st') = units (trace ?st) @ own_units P p dir xs"
      by blast
    with True assms(1) x e show ?thesis
      by (auto simp: Let_def distributed_to_def own_units_def units_append)
  next
    case False
    let ?st = "st\<lparr>count_all := count_all st + 1\<rparr>"
    from Cons.IH [of ?st] obtain st' where
      "windfield_loop P p engine dir folder xs ?st = (st', None)"
      "count_all st' = count_all ?st + length xs"
      "count_local st' = count_local ?st + length (own_units P p dir xs)"
      "units (trace st') = units (trace ?st) @ own_units P p dir xs"
      by blast
    with False assms(1) x show ?thesis
      by (auto simp: Let_def distributed_to_def own_units_def)
  qed
qed

lemma enumerate_nth: "enumerate 0 xs = map (\<lambda>i. (i, xs ! i)) [0..<length xs]"
  by (rule nth_equalityI) (simp_all add: nth_enumerate_eq)

lemma map_fst_own_units_enumerate:
  "map fst (own_units P p dir (enumerate 0 listing))
     = [i \<leftarrow> [0..<length listing]. i mod P = p \<and> endswith (listing ! i) ''.profile'']"
  by (simp add: own_units_def enumerate_nth filter_map comp_def)


lemma destinations_sends: "destinations (map (Send msg) ds) = ds"
  by (induction ds) simp_all

lemma delivered_sends:
  "delivered (map (Send msg) ds) dst = replicate (length (filter (\<lambda>d. d = dst) ds)) msg"
  by (induction ds) simp_all

lemma filter_eq_upt: "p < P \<Longrightarrow> filter (\<lambda>d. d = p) [0..<P] = [p]"
proof (induction P)
  case 0
  then show ?case by simp
next
  case (Suc P)
  show ?case
  proof (cases "p < P")
    case True
    with Suc.IH show ?thesis by simp
  next
    case False
    with Suc.prems have "p = P" by simp
    moreover have "filter (\<lambda>d. d = P) [0..<P] = []"
      by (simp add: filter_empty_conv)
    ultimately show ?thesis by simp
  qed
qed

lemma reports_append: "reports (a @ b) = reports a @ reports b"
  by (induction a rule: reports.induct) simp_all

lemma reports_sends: "reports (map (Send msg) ds) = []"
  by (induction ds) simp_all

lemma reports_loop:
  "reports (trace (fst (windfield_loop P p engine dir folder xs st))) = reports (trace st)"
proof (induction xs arbitrary: st)
  case Nil
  then show ?case by simp
next
  case (Cons x xs)
  obtain i f where x: "x = (i, f)" by (cases x)
  show ?case
    unfolding x by (simp add: Let_def Cons.IH reports_append)
qed

lemma units_sends: "units (map (Send msg) ds) = []"
  by (induction ds) simp_all

lemma destinations_append: "destinations (a @ b) = destinations a @ destinations b"
  by (induction a rule: destinations.induct) simp_all

lemma delivered_append: "delivered (a @ b) dst = delivered a dst @ delivered b dst"
  by (induction a dst rule: delivered.induct) simp_all

lemma computed_append: "computed (a @ b) = computed a @ computed b"
  by (induction a rule: computed.induct) simp_all

lemma received_append: "received (a @ b) = received a @ received b"
  by (induction a rule: received.induct) simp_all

lemma computed_sends: "computed (map (Send msg) ds) = []"
  by (induction ds) simp_all

lemma received_sends: "received (map (Send msg) ds) = []"
  by (induction ds) simp_all

lemma quiet_loop:
  "destinations (trace (fst (windfield_loop P p engine dir folder xs st)))
     = destinations (trace st)"
  "delivered (trace (fst (windfield_loop P p engine dir folder xs st))) dst
     = delivered (trace st) dst"
  "computed (trace (fst (windfield_loop P p engine dir folder xs st))) = computed (trace st)"
  "received (trace (fst (windfield_loop P p engine dir folder xs st))) = received (trace st)"
proof -
  have "destinations (trace (fst (windfield_loop P p engine dir folder xs st)))
          = destinations (trace st)
      \<and> delivered (trace (fst (windfield_loop P p engine dir folder xs st))) dst
          = delivered (trace st) dst
      \<and> computed (trace (fst (windfield_loop P p engine dir folder xs st)))
          = computed (trace st)
      \<and> received (trace (fst (windfield_loop P p engine dir folder xs st)))
          = received (trace st)"
  proof (induction xs arbitrary: st)
    case Nil
    then show ?case by simp
  next
    case (Cons x xs)
    obtain i f where x: "x = (i, f)" by (cases x)
    show ?case
      unfolding x
      by (simp add: Let_def Cons.IH destinations_append delivered_append computed_append
            received_append)
  qed
  then show "destinations (trace (fst (windfield_loop P p engine dir folder xs st)))
     = destinations (trace st)"
    and "delivered (trace (fst (windfield_loop P p engine dir folder xs st))) dst
     = delivered (trace st) dst"
    and "computed (trace (fst (windfield_loop P p engine dir folder xs st))) = computed (trace st)"
    and "received (trace (fst (windfield_loop P p engine dir folder xs st))) = received (trace st)"
    by simp_all
qed

text \<open>The shape of the events of rank 0 and of another rank.\<close>

lemma leader_shape:
  assumes "0 < P"
  shows "\<exists>st tl. fst (run_multiple_windfields (Some \<lparr>mpi_size = P, mpi_rank = 0\<rparr>) inbox engine
                     dir (Some folder) listing)
            = [Sleep 1, Barrier, Makedir (logs_dir folder)] @ map (Send folder) [0..<P]
                @ [Barrier, Sleep 0] @ trace st @ tl
          \<and> st = fst (windfield_loop P 0 engine dir folder (enumerate 0 listing)
                         \<lparr>count_local = 0, count_all = 0, trace = []\<rparr>)
          \<and> (tl = [] \<or> tl = [Barrier, Report (count_all st), Finalize])"
proof -
  let ?init = "\<lparr>count_local = 0, count_all = 0, trace = []\<rparr>"
  obtain st err where l: "windfield_loop P 0 engine dir folder (enumerate 0 listing) ?init
                            = (st, err)"
    by (cases "windfield_loop P 0 engine dir folder (enumerate 0 listing) ?init")
  have hs: "handshake (Some \<lparr>mpi_size = P, mpi_rank = 0\<rparr>) P 0 inbox (Some folder)
           = (Makedir (logs_dir folder) # map (Send folder) [0..<P],
              Returned (folder, logs_dir folder))"
    using assms by (simp add: handshake_def Let_def)
  show ?thesis
  proof (cases err)
    case None
    have "fst (run_multiple_windfields (Some \<lparr>mpi_size = P, mpi_rank = 0\<rparr>) inbox engine
                     dir (Some folder) listing)
            = [Sleep 1, Barrier, Makedir (logs_dir folder)] @ map (Send folder) [0..<P]
                @ [Barrier, Sleep 0] @ trace st @ [Barrier, Report (count_all st), Finalize]"
      using l None by (simp add: run_multiple_windfields_def hs Let_def)
    with l show ?thesis by simp
  next
    case (Some e)
    have "fst (run_multiple_windfields (Some \<lparr>mpi_size = P, mpi_rank = 0\<rparr>) inbox engine
                     dir (Some folder) listing)
            = [Sleep 1, Barrier, Makedir (logs_dir folder)] @ map (Send folder) [0..<P]
                @ [Barrier, Sleep 0] @ trace st @ []"
      using l Some by (simp add: run_multiple_windfields_def hs Let_def)
    with l show ?thesis by simp
  qed
qed

lemma leader_sends:
  assumes "0 < P"
  shows "destinations (fst (run_multiple_windfields (Some \<lparr>mpi_size = P, mpi_rank = 0\<rparr>) inbox
                              engine dir (Some folder) listing)) = [0..<P]"
    and "p < P \<Longrightarrow> delivered (fst (run_multiple_windfields (Some \<lparr>mpi_size = P, mpi_rank = 0\<rparr>)
                              inbox engine dir (Some folder) listing)) p = [folder]"
    and "computed (fst (run_multiple_windfields (Some \<lparr>mpi_size = P, mpi_rank = 0\<rparr>) inbox
                              engine dir (Some folder) listing)) = []"
    and "received (fst (run_multiple_windfields (Some \<lparr>mpi_size = P, mpi_rank = 0\<rparr>) inbox
                              engine dir (Some folder) listing)) = []"
proof -
  from leader_shape [OF assms, of inbox engine dir folder listing]
  obtain st tl where
    ev: "fst (run_multiple_windfields (Some \<lparr>mpi_size = P, mpi_rank = 0\<rparr>) inbox engine
                     dir (Some folder) listing)
            = [Sleep 1, Barrier, Makedir (logs_dir folder)] @ map (Send folder) [0..<P]
                @ [Barrier, Sleep 0] @ trace st @ tl"
    and st: "st = fst (windfield_loop P 0 engine dir folder (enumerate 0 listing)
                         \<lparr>count_local = 0, count_all = 0, trace = []\<rparr>)"
    and tl: "tl = [] \<or> tl = [Barrier, Report (count_all st), Finalize]"
    by blast
  have q: "destinations (trace st) = []" "delivered (trace st) p = []"
    "computed (trace st) = []" "received (trace st) = []"
    unfolding st by (simp_all add: quiet_loop)
  from tl have t: "destinations tl = []" "delivered tl p = []" "computed tl = []"
    "received tl = []"
    by auto
  show "destinations (fst (run_multiple_windfields (Some \<lparr>mpi_size = P, mpi_rank = 0\<rparr>) inbox
                              engine dir (Some folder) listing)) = [0..<P]"
    unfolding ev by (simp add: destinations_append destinations_sends q t)
  show "delivered (fst (run_multiple_windfields (Some \<lparr>mpi_size = P, mpi_rank = 0\<rparr>)
                              inbox engine dir (Some folder) listing)) p = [folder]"
    if "p < P"
    unfolding ev using that
    by (simp add: delivered_append delivered_sends filter_eq_upt q t)
  show "computed (fst (run_multiple_windfields (Some \<lparr>mpi_size = P, mpi_rank = 0\<rparr>) inbox
                              engine dir (Some folder) listing)) = []"
    unfolding ev by (simp add: computed_append computed_sends q t)
  show "received (fst (run_multiple_windfields (Some \<lparr>mpi_size = P, mpi_rank = 0\<rparr>) inbox
                              engine dir (Some folder) listing)) = []"
    unfolding ev by (simp add: received_append received_sends q t)
qed

lemma follower_shape:
  assumes "0 < p"
  shows "\<exists>st tl. fst (run_multiple_windfields (Some \<lparr>mpi_size = P, mpi_rank = p\<rparr>)
                     (msg # later) engine dir own listing)
            = [Sleep 1, Barrier, Receive 0 msg, Barrier, Sleep (2 * p)] @ trace st @ tl
          \<and> st = fst (windfield_loop P p engine dir msg (enumerate 0 listing)
                         \<lparr>count_local = 0, count_all = 0, trace = []\<rparr>)
          \<and> (tl = [] \<or> tl = [Barrier, Finalize])"
proof -
  let ?init = "\<lparr>count_local = 0, count_all = 0, trace = []\<rparr>"
  obtain st err where l: "windfield_loop P p engine dir msg (enumerate 0 listing) ?init
                            = (st, err)"
    by (cases "windfield_loop P p engine dir msg (enumerate 0 listing) ?init")
  have hs: "handshake (Some \<lparr>mpi_size = P, mpi_rank = p\<rparr>) P p (msg # later) own
           = ([Receive 0 msg], Returned (msg, logs_dir msg))"
    using assms by (simp add: handshake_def)
  show ?thesis
  proof (cases err)
    case None
    have "fst (run_multiple_windfields (Some \<lparr>mpi_size = P, mpi_rank = p\<rparr>)
                     (msg # later) engine dir own listing)
            = [Sleep 1, Barrier, Receive 0 msg, Barrier, Sleep (2 * p)] @ trace st
                @ [Barrier, Finalize]"
      using l None assms by (simp add: run_multiple_windfields_def hs Let_def)
    with l show ?thesis by simp
  next
    case (Some e)
    have "fst (run_multiple_windfields (Some \<lparr>mpi_size = P, mpi_rank = p\<rparr>)
                     (msg # later) engine dir own listing)
            = [Sleep 1, Barrier, Receive 0 msg, Barrier, Sleep (2 * p)] @ trace st @ []"
      using l Some by (simp add: run_multiple_windfields_def hs Let_def)
    with l show ?thesis by simp
  qed
qed

lemma follower_receives:
  assumes "0 < p"
  shows "received (fst (run_multiple_windfields (Some \<lparr>mpi_size = P, mpi_rank = p\<rparr>)
                          (msg # later) engine dir own listing)) = [(0, msg)]"
    and "computed (fst (run_multiple_windfields (Some \<lparr>mpi_size = P, mpi_rank = p\<rparr>)
                          (msg # later) engine dir own listing)) = []"
    and "destinations (fst (run_multiple_windfields (Some \<lparr>mpi_size = P, mpi_rank = p\<rparr>)
                          (msg # later) engine dir own listing)) = []"
proof -
  from follower_shape [OF assms, of P msg later engine dir own listing]
  obtain st tl where
    ev: "fst (run_multiple_windfields (Some \<lparr>mpi_size = P, mpi_rank = p\<rparr>)
                     (msg # later) engine dir own listing)
            = [Sleep 1, Barrier, Receive 0 msg, Barrier, Sleep (2 * p)] @ trace st @ tl"
    and st: "st = fst (windfield_loop P p engine dir msg (enumerate 0 listing)
                         \<lparr>count_local = 0, count_all = 0, trace = []\<rparr>)"
    and tl: "tl = [] \<or> tl = [Barrier, Finalize]"
    by blast
  have q: "destinations (trace st) = []" "computed (trace st) = []" "received (trace st) = []"
    unfolding st by (simp_all add: quiet_loop)
  from tl have t: "destinations tl = []" "computed tl = []" "received tl = []"
    by auto
  show "received (fst (run_multiple_windfields (Some \<lparr>mpi_size = P, mpi_rank = p\<rparr>)
                          (msg # later) engine dir own listing)) = [(0, msg)]"
    unfolding ev by (simp add: received_append q t)
  show "computed (fst (run_multiple_windfields (Some \<lparr>mpi_size = P, mpi_rank = p\<rparr>)
                          (msg # later) engine dir own listing)) = []"
    unfolding ev by (simp add: computed_append q t)
  show "destinations (fst (run_multiple_windfields (Some \<lparr>mpi_size = P, mpi_rank = p\<rparr>)
                          (msg # later) engine dir own listing)) = []"
    unfolding ev by (simp add: destinations_append q t)
qed

lemma follower_blocked:
  "0 < p \<Longrightarrow> run_multiple_windfields (Some \<lparr>mpi_size = P, mpi_rank = p\<rparr>) [] engine dir own
                listing = ([Sleep 1, Barrier], Blocked)"
  by (simp add: run_multiple_windfields_def handshake_def)

text \<open>The whole call at every rank, when the runs complete.\<close>

lemma run_multiple_windfields_rank:
  assumes "0 < P" and "\<forall>i w. engine i w"
      and "p = 0 \<longrightarrow> own = Some folder" and "0 < p \<longrightarrow> (\<exists>later. inbox = folder # later)"
  shows "\<exists>evs n. run_multiple_windfields (Some \<lparr>mpi_size = P, mpi_rank = p\<rparr>) inbox engine dir
                    own listing
                  = (evs, Returned (folder, n, length listing))
               \<and> units evs = own_units P p dir (enumerate 0 listing)"
proof -
  let ?init = "\<lparr>count_local = 0, count_all = 0, trace = []\<rparr>"
  from windfield_loop_ok [OF assms(1,2), of p dir folder "enumerate 0 listing" ?init]
  obtain st where
    st: "windfield_loop P p engine dir folder (enumerate 0 listing) ?init = (st, None)"
    and ca: "count_all st = length listing"
    and un: "units (trace st) = own_units P p dir (enumerate 0 listing)"
    by auto
  show ?thesis
  proof (cases "p = 0")
    case True
    with assms(3) have own: "own = Some folder" by simp
    have hs: "handshake (Some \<lparr>mpi_size = P, mpi_rank = 0\<rparr>) P 0 inbox (Some folder)
           = (Makedir (logs_dir folder) # map (Send folder) [0..<P],
              Returned (folder, logs_dir folder))"
      using assms(1) by (simp add: handshake_def Let_def)
    have run: "run_multiple_windfields (Some \<lparr>mpi_size = P, mpi_rank = 0\<rparr>) inbox engine
                      dir (Some folder) listing
       = ([Sleep 1, Barrier] @ (Makedir (logs_dir folder) # map (Send folder) [0..<P])
            @ [Barrier, Sleep (2 * 0)] @ trace st @ [Barrier] @ [Report (count_all st)] @ [Finalize],
          Returned (folder, count_local st, count_all st))"
      using st True by (simp add: run_multiple_windfields_def hs Let_def)
    show ?thesis
      unfolding True own run by (simp add: ca un [unfolded True] units_append units_sends)
  next
    case False
    with assms(4) obtain later where inbox: "inbox = folder # later" by auto
    have hs: "handshake (Some \<lparr>mpi_size = P, mpi_rank = p\<rparr>) P p (folder # later) own
           = ([Receive 0 folder], Returned (folder, logs_dir folder))"
      using False by (simp add: handshake_def)
    have run: "run_multiple_windfields (Some \<lparr>mpi_size = P, mpi_rank = p\<rparr>) (folder # later)
                      engine dir own listing
       = ([Sleep 1, Barrier, Receive 0 folder, Barrier, Sleep (2 * p)] @ trace st
            @ [Barrier, Finalize],
          Returned (folder, count_local st, count_all st))"
      using st False by (simp add: run_multiple_windfields_def hs Let_def)
    show ?thesis
      unfolding inbox run by (simp add: ca un units_append)
  qed
qed

lemma run_scenario_script_parts:
  "fst (run_scenario_script pypar inbox engine dir d listing)
     = BuildOutputDir d # fst (run_multiple_windfields pypar inbox engine dir (Some d) listing)"
  "snd (run_scenario_script pypar inbox engine dir d listing)
     = snd (run_multiple_windfields pypar inbox engine dir (Some d) listing)"
  by (simp_all add: run_scenario_script_def split: prod.splits)

lemma group_member_leader:
  "group_member P engine dir output_dirs listing 0
     = run_scenario_script (Some \<lparr>mpi_size = P, mpi_rank = 0\<rparr>) [] engine dir (output_dirs 0)
         listing"
  by (simp add: group_member_def)

lemma group_member_follower:
  assumes "0 < p" and "p < P"
  shows "group_member P engine dir output_dirs listing p
     = run_scenario_script (Some \<lparr>mpi_size = P, mpi_rank = p\<rparr>) [output_dirs 0] engine dir
         (output_dirs p) listing"
proof -
  from assms have P: "0 < P" by simp
  from assms(1) have "group_member P engine dir output_dirs listing p
     = run_scenario_script (Some \<lparr>mpi_size = P, mpi_rank = p\<rparr>)
         (delivered (fst (run_scenario_script (Some \<lparr>mpi_size = P, mpi_rank = 0\<rparr>) []
                               engine dir (output_dirs 0) listing)) p)
         engine dir (output_dirs p) listing"
    by (simp add: group_member_def)
  also have "delivered (fst (run_scenario_script (Some \<lparr>mpi_size = P, mpi_rank = 0\<rparr>) []
                               engine dir (output_dirs 0) listing)) p = [output_dirs 0]"
    by (simp add: run_scenario_script_parts leader_sends(2) [OF P assms(2)])
  finally show ?thesis .
qed

text \<open>
  Claim C3, as the code has it. Take a group of \<open>P \<ge> 1\<close> processes that run the same
  scenario script, each calling \<^verbatim>\<open>build_output_dir\<close> once in \<^verbatim>\<open>run_scenario\<close>. Rank 0
  computes its path exactly once, receives nothing, and sends that path once to every
  rank of \<^verbatim>\<open>range(P)\<close>, in increasing order: the destinations of its sends are
  \<open>0, 1, ..., P-1\<close>, its own rank included, and exactly one message, the path of rank 0,
  reaches every rank. Every other rank \<open>p\<close> sends nothing and receives exactly that
  message from rank 0, which leaves it with the path of rank 0 as \<^verbatim>\<open>hazard_output_folder\<close>;
  the path it had computed itself is dropped. With nothing delivered
  its receive does not return. When the runs of the scenarios complete, every rank
  returns holding the path that rank 0 computed.
\<close>

theorem hazard_output_folder_broadcast:
  assumes "0 < P"
  shows "computed (fst (group_member P engine dir output_dirs listing 0)) = [output_dirs 0]
       \<and> destinations (fst (group_member P engine dir output_dirs listing 0)) = [0..<P]
       \<and> received (fst (group_member P engine dir output_dirs listing 0)) = []
       \<and> (\<forall>p<P. delivered (fst (group_member P engine dir output_dirs listing 0)) p
                   = [output_dirs 0])
       \<and> (\<forall>p. 0 < p \<and> p < P \<longrightarrow>
             received (fst (group_member P engine dir output_dirs listing p))
               = [(0, output_dirs 0)]
           \<and> destinations (fst (group_member P engine dir output_dirs listing p)) = []
           \<and> computed (fst (group_member P engine dir output_dirs listing p)) = [output_dirs p]
           \<and> handshake (Some \<lparr>mpi_size = P, mpi_rank = p\<rparr>) P p
                 (delivered (fst (group_member P engine dir output_dirs listing 0)) p)
                 (Some (output_dirs p))
               = ([Receive 0 (output_dirs 0)],
                  Returned (output_dirs 0, logs_dir (output_dirs 0)))
           \<and> run_scenario_script (Some \<lparr>mpi_size = P, mpi_rank = p\<rparr>) [] engine dir
                 (output_dirs p) listing
               = ([BuildOutputDir (output_dirs p), Sleep 1, Barrier], Blocked))
       \<and> ((\<forall>i w. engine i w) \<longrightarrow>
            (\<forall>p<P. \<exists>evs n. group_member P engine dir output_dirs listing p
                              = (evs, Returned (output_dirs 0, n, length listing))))"
proof -
  note l = leader_sends [OF assms]
  have A: "computed (fst (group_member P engine dir output_dirs listing 0)) = [output_dirs 0]"
    by (simp add: group_member_leader run_scenario_script_parts l(3))
  have B: "destinations (fst (group_member P engine dir output_dirs listing 0)) = [0..<P]"
    by (simp add: group_member_leader run_scenario_script_parts l(1))
  have C: "received (fst (group_member P engine dir output_dirs listing 0)) = []"
    by (simp add: group_member_leader run_scenario_script_parts l(4))
  have D: "\<forall>p<P. delivered (fst (group_member P engine dir output_dirs listing 0)) p
                   = [output_dirs 0]"
    by (simp add: group_member_leader run_scenario_script_parts leader_sends(2) [OF assms])
  have E: "received (fst (group_member P engine dir output_dirs listing p))
               = [(0, output_dirs 0)]
           \<and> destinations (fst (group_member P engine dir output_dirs listing p)) = []
           \<and> computed (fst (group_member P engine dir output_dirs listing p)) = [output_dirs p]
           \<and> handshake (Some \<lparr>mpi_size = P, mpi_rank = p\<rparr>) P p
                 (delivered (fst (group_member P engine dir output_dirs listing 0)) p)
                 (Some (output_dirs p))
               = ([Receive 0 (output_dirs 0)],
                  Returned (output_dirs 0, logs_dir (output_dirs 0)))
           \<and> run_scenario_script (Some \<lparr>mpi_size = P, mpi_rank = p\<rparr>) [] engine dir
                 (output_dirs p) listing
               = ([BuildOutputDir (output_dirs p), Sleep 1, Barrier], Blocked)"
    if p: "0 < p" "p < P" for p
  proof -
    have "run_scenario_script (Some \<lparr>mpi_size = P, mpi_rank = p\<rparr>) [] engine dir
                 (output_dirs p) listing
               = ([BuildOutputDir (output_dirs p), Sleep 1, Barrier], Blocked)"
      by (simp add: run_scenario_script_def follower_blocked [OF p(1)])
    moreover have "handshake (Some \<lparr>mpi_size = P, mpi_rank = p\<rparr>) P p
                 (delivered (fst (group_member P engine dir output_dirs listing 0)) p)
                 (Some (output_dirs p))
               = ([Receive 0 (output_dirs 0)],
                  Returned (output_dirs 0, logs_dir (output_dirs 0)))"
      using D p by (simp add: handshake_def)
    ultimately show ?thesis
      by (simp add: group_member_follower [OF p] run_scenario_script_parts
            follower_receives [OF p(1)])
  qed
  have F: "\<forall>p<P. \<exists>evs n. group_member P engine dir output_dirs listing p
                              = (evs, Returned (output_dirs 0, n, length listing))"
    if e: "\<forall>i w. engine i w"
  proof (intro allI impI)
    fix p assume pP: "p < P"
    show "\<exists>evs n. group_member P engine dir output_dirs listing p
                              = (evs, Returned (output_dirs 0, n, length listing))"
    proof (cases "p = 0")
      case True
      from run_multiple_windfields_rank [OF assms e, of 0 "Some (output_dirs 0)"
          "output_dirs 0" "[]" dir listing]
      obtain evs n where "run_multiple_windfields (Some \<lparr>mpi_size = P, mpi_rank = 0\<rparr>) []
          engine dir (Some (output_dirs 0)) listing
            = (evs, Returned (output_dirs 0, n, length listing))"
        by auto
      then show ?thesis
        unfolding True by (simp add: group_member_leader run_scenario_script_def)
    next
      case False
      then have p0: "0 < p" by simp
      from run_multiple_windfields_rank [OF assms e, of p "Some (output_dirs p)"
          "output_dirs 0" "[output_dirs 0]" dir listing] p0
      obtain evs n where "run_multiple_windfields (Some \<lparr>mpi_size = P, mpi_rank = p\<rparr>)
          [output_dirs 0] engine dir (Some (output_dirs p)) listing
            = (evs, Returned (output_dirs 0, n, length listing))"
        by auto
      then show ?thesis
        by (simp add: group_member_follower [OF p0 pP] run_scenario_script_def)
    qed
  qed
  from E have E': "\<forall>p. 0 < p \<and> p < P \<longrightarrow>
             received (fst (group_member P engine dir output_dirs listing p))
               = [(0, output_dirs 0)]
           \<and> destinations (fst (group_member P engine dir output_dirs listing p)) = []
           \<and> computed (fst (group_member P engine dir output_dirs listing p)) = [output_dirs p]
           \<and> handshake (Some \<lparr>mpi_size = P, mpi_rank = p\<rparr>) P p
                 (delivered (fst (group_member P engine dir output_dirs listing 0)) p)
                 (Some (output_dirs p))
               = ([Receive 0 (output_dirs 0)],
                  Returned (output_dirs 0, logs_dir (output_dirs 0)))
           \<and> run_scenario_script (Some \<lparr>mpi_size = P, mpi_rank = p\<rparr>) [] engine dir
                 (output_dirs p) listing
               = ([BuildOutputDir (output_dirs p), Sleep 1, Barrier], Blocked)"
    by simp
  from F have F': "(\<forall>i w. engine i w) \<longrightarrow>
            (\<forall>p<P. \<exists>evs n. group_member P engine dir output_dirs listing p
                              = (evs, Returned (output_dirs 0, n, length listing)))"
    by (rule impI)
  show ?thesis
    by (intro conjI A B C D E' F')
qed


text \<open>
  Two ranks whose calls of \<^verbatim>\<open>build_output_dir\<close> give \<^verbatim>\<open>out_0\<close> and \<^verbatim>\<open>out_1\<close>: rank 0 sends
  \<^verbatim>\<open>out_0\<close> to 0 and to 1; rank 1 receives it and ends with \<^verbatim>\<open>out_0\<close>.
\<close>

theorem hazard_output_folder_broadcast_witness:
  "computed (fst (group_member 2 completes ''winds'' stamped [''a.profile''] 0)) = [''out_0'']
   \<and> destinations (fst (group_member 2 completes ''winds'' stamped [''a.profile''] 0)) = [0, 1]
   \<and> received (fst (group_member 2 completes ''winds'' stamped [''a.profile''] 1))
       = [(0, ''out_0'')]
   \<and> computed (fst (group_member 2 completes ''winds'' stamped [''a.profile''] 1)) = [''out_1'']
   \<and> (\<exists>evs n. group_member 2 completes ''winds'' stamped [''a.profile''] 1
                 = (evs, Returned (''out_0'', n, 1)))"
proof -
  have P: "0 < (2::nat)" by simp
  have p: "0 < (1::nat) \<and> (1::nat) < 2" by simp
  have e: "\<forall>i w. completes i w" by (simp add: completes_def)
  have s: "stamped 0 = ''out_0''" "stamped (Suc 0) = ''out_1''"
    by (simp_all add: stamped_def fmt_i_def digits.simps digit_char_def)
  have u: "[0..<2] = [0, Suc 0]" by (simp add: upt_rec)
  note h = hazard_output_folder_broadcast [OF P, of completes "''winds''" stamped
      "[''a.profile'']"]
  from h have A: "computed (fst (group_member 2 completes ''winds'' stamped [''a.profile''] 0))
                    = [stamped 0]"
    by (elim conjE)
  from h have B: "destinations (fst (group_member 2 completes ''winds'' stamped
                    [''a.profile''] 0)) = [0..<2]"
    by (elim conjE)
  from h have fol: "\<forall>p. 0 < p \<and> p < 2 \<longrightarrow>
             received (fst (group_member 2 completes ''winds'' stamped [''a.profile''] p))
               = [(0, stamped 0)]
           \<and> destinations (fst (group_member 2 completes ''winds'' stamped [''a.profile''] p))
               = []
           \<and> computed (fst (group_member 2 completes ''winds'' stamped [''a.profile''] p))
               = [stamped p]
           \<and> handshake (Some \<lparr>mpi_size = 2, mpi_rank = p\<rparr>) 2 p
                 (delivered (fst (group_member 2 completes ''winds'' stamped [''a.profile''] 0)) p)
                 (Some (stamped p))
               = ([Receive 0 (stamped 0)], Returned (stamped 0, logs_dir (stamped 0)))
           \<and> run_scenario_script (Some \<lparr>mpi_size = 2, mpi_rank = p\<rparr>) [] completes ''winds''
                 (stamped p) [''a.profile'']
               = ([BuildOutputDir (stamped p), Sleep 1, Barrier], Blocked)"
    by (elim conjE)
  from fol [rule_format, OF p] have C: "received (fst (group_member 2 completes ''winds'' stamped
                    [''a.profile''] 1)) = [(0, stamped 0)]"
    by (elim conjE)
  from fol [rule_format, OF p] have D: "computed (fst (group_member 2 completes ''winds'' stamped
                    [''a.profile''] 1)) = [stamped 1]"
    by (elim conjE)
  from h have "(\<forall>i w. completes i w) \<longrightarrow>
           (\<forall>p<2. \<exists>evs n. group_member 2 completes ''winds'' stamped [''a.profile''] p
                 = (evs, Returned (stamped 0, n, length [''a.profile''])))"
    by (elim conjE)
  with e have "\<forall>p<2. \<exists>evs n. group_member 2 completes ''winds'' stamped [''a.profile''] p
                 = (evs, Returned (stamped 0, n, length [''a.profile'']))"
    by (rule rev_mp)
  with p have F: "\<exists>evs n. group_member 2 completes ''winds'' stamped [''a.profile''] 1
                 = (evs, Returned (stamped 0, n, length [''a.profile'']))"
    by blast
  from A B C D F show ?thesis
    by (simp add: s u)
qed


text \<open>
  Claim C3 as stated fails: with two ranks, the set of destinations of the sends of
  rank 0 is not \<open>{1}\<close>, since rank 0 also sends to rank 0.
\<close>

theorem hazard_output_folder_destinations_counterexample:
  "set (destinations (fst (group_member 2 completes ''winds'' stamped [''a.profile''] 0)))
     \<noteq> {1..<2}"
proof -
  have "destinations (fst (group_member 2 completes ''winds'' stamped [''a.profile''] 0))
          = [0, 1]"
    by (simp add: group_member_def run_scenario_script_def run_multiple_windfields_def
          handshake_def Let_def upt_rec completes_def distributed_to_def endswith_def
          split: prod.splits)
  then have "0 \<in> set (destinations (fst (group_member 2 completes ''winds'' stamped
                [''a.profile''] 0)))"
    by simp
  moreover have "(0::nat) \<notin> {1..<2}"
    by simp
  ultimately show ?thesis
    by blast
qed


text \<open>
  Claim C2. When \<^verbatim>\<open>import pypar\<close> fails, the function does set \<^verbatim>\<open>P = 1\<close> and \<^verbatim>\<open>p = 0\<close> and
  announces a sequential run, but the branch of rank 0 then calls \<^verbatim>\<open>pypar.send\<close> on the
  unbound name: for every input the call raises (a \<^verbatim>\<open>NameError\<close> after the log directory
  is made, or an \<^verbatim>\<open>AttributeError\<close> before it when no output folder is given) and no wind
  field is run. The same input with \<^verbatim>\<open>pypar\<close> present and a group of one rank completes.
\<close>

theorem run_multiple_windfields_without_pypar:
  "run_multiple_windfields None inbox engine dir hazard_output_folder listing
     = (case hazard_output_folder of
          None \<Rightarrow> ([], Raised AttributeError)
        | Some folder \<Rightarrow> ([Makedir (logs_dir folder)], Raised NameError))
   \<and> run_multiple_windfields (Some \<lparr>mpi_size = 1, mpi_rank = 0\<rparr>) []
        (\<lambda>i w. True) ''winds'' (Some ''out'') [''a.profile'']
     = ([Sleep 1, Barrier, Makedir ''out/logs'', Send ''out'' 0, Barrier, Sleep 0,
         RunScenario 0 ''winds/a.profile'', Makedir ''out'', Chmod ''out'',
         CopyResult ''a'' ''out'', CopyProjection ''out'', Cleanup 0, Barrier,
         Report 1, Finalize],
        Returned (''out'', 1, 1))"
proof -
  have a: "run_multiple_windfields None inbox engine dir hazard_output_folder listing
     = (case hazard_output_folder of
          None \<Rightarrow> ([], Raised AttributeError)
        | Some folder \<Rightarrow> ([Makedir (logs_dir folder)], Raised NameError))"
    by (simp add: run_multiple_windfields_def handshake_def Let_def split: option.splits)
  have s: "splitext ''a.profile'' = (''a'', ''.profile'')"
    by (simp add: splitext_def rfind_def)
  have b: "run_multiple_windfields (Some \<lparr>mpi_size = 1, mpi_rank = 0\<rparr>) []
        (\<lambda>i w. True) ''winds'' (Some ''out'') [''a.profile'']
     = ([Sleep 1, Barrier, Makedir ''out/logs'', Send ''out'' 0, Barrier, Sleep 0,
         RunScenario 0 ''winds/a.profile'', Makedir ''out'', Chmod ''out'',
         CopyResult ''a'' ''out'', CopyProjection ''out'', Cleanup 0, Barrier,
         Report 1, Finalize],
        Returned (''out'', 1, 1))"
    by (simp add: run_multiple_windfields_def handshake_def Let_def logs_dir_def
          distributed_to_def endswith_def s)
  from a b show ?thesis ..
qed


lemma distributed_to_unique: "0 < P \<Longrightarrow> \<exists>!p. p < P \<and> distributed_to P p i"
  by (auto simp: distributed_to_def)

lemma processed_by_eq:
  assumes "0 < P" and "\<forall>i w. engine i w"
  shows "snd (windfield_loop P p engine dir folder (enumerate 0 listing)
                \<lparr>count_local = 0, count_all = 0, trace = []\<rparr>) = None"
    and "processed_by P p engine dir folder listing
           = [i \<leftarrow> [0..<length listing]. i mod P = p \<and> endswith (listing ! i) ''.profile'']"
proof -
  from windfield_loop_ok [OF assms, of p dir folder "enumerate 0 listing"
      "\<lparr>count_local = 0, count_all = 0, trace = []\<rparr>"]
  obtain st' where l: "windfield_loop P p engine dir folder (enumerate 0 listing)
        \<lparr>count_local = 0, count_all = 0, trace = []\<rparr> = (st', None)"
    and u: "units (trace st') = own_units P p dir (enumerate 0 listing)"
    by auto
  from l show "snd (windfield_loop P p engine dir folder (enumerate 0 listing)
                \<lparr>count_local = 0, count_all = 0, trace = []\<rparr>) = None"
    by simp
  from l u show "processed_by P p engine dir folder listing
           = [i \<leftarrow> [0..<length listing]. i mod P = p \<and> endswith (listing ! i) ''.profile'']"
    by (simp add: processed_by_def map_fst_own_units_enumerate)
qed

text \<open>
  Claim C1. Let \<^verbatim>\<open>pypar.size()\<close> be \<open>P \<ge> 1\<close>, let the run of every scenario complete, let
  rank 0 be called with an output folder and let a message from rank 0 have reached every
  other rank. The test of the loop gives every global index to exactly one rank
  \<open>p < P\<close>, the one with \<open>i mod P = p\<close>. For every listing, the call of
  \<^verbatim>\<open>run_multiple_windfields\<close> in the process whose \<^verbatim>\<open>pypar.rank()\<close> is \<open>p\<close> returns, and the
  wind fields it has run are exactly the entries at the indices \<open>i\<close> with \<open>i mod P = p\<close>
  whose name ends in \<^verbatim>\<open>.profile\<close>, in listing order. When all \<open>N\<close> entries of the listing are
  wind fields (\<^verbatim>\<open>.profile\<close>), no process runs an index twice, the indices run by the
  processes of the ranks \<open>0..P-1\<close> together are \<open>{0..N-1}\<close>, and every index is run by
  exactly one of them. The loop taken alone, with any \<open>P\<close> and \<open>p\<close>, does the same.
\<close>

theorem cyclic_distribution:
  assumes "0 < P" and "\<forall>i w. engine i w"
      and "own 0 \<noteq> None" and "\<forall>p. 0 < p \<longrightarrow> inbox p \<noteq> []"
  shows "(\<forall>i. \<exists>!p. p < P \<and> distributed_to P p i)
       \<and> (\<forall>i p. distributed_to P p i \<longleftrightarrow> i mod P = p)
       \<and> (\<forall>p. \<exists>evs result.
             run_multiple_windfields (Some \<lparr>mpi_size = P, mpi_rank = p\<rparr>) (inbox p) engine dir
                 (own p) listing = (evs, Returned result)
           \<and> units evs = own_units P p dir (enumerate 0 listing))
       \<and> (\<forall>p. scheduled P p (inbox p) engine dir (own p) listing
                = [i \<leftarrow> [0..<length listing].
                     i mod P = p \<and> endswith (listing ! i) ''.profile''])
       \<and> ((\<forall>f\<in>set listing. endswith f ''.profile'') \<longrightarrow>
             (\<forall>p. distinct (scheduled P p (inbox p) engine dir (own p) listing))
           \<and> (\<Union>p\<in>{0..<P}. set (scheduled P p (inbox p) engine dir (own p) listing))
               = {0..<length listing}
           \<and> (\<forall>i<length listing.
                 \<exists>!p. p < P \<and> i \<in> set (scheduled P p (inbox p) engine dir (own p) listing)))
       \<and> (\<forall>p. snd (windfield_loop P p engine dir folder (enumerate 0 listing)
                      \<lparr>count_local = 0, count_all = 0, trace = []\<rparr>) = None
              \<and> processed_by P p engine dir folder listing
                  = [i \<leftarrow> [0..<length listing].
                       i mod P = p \<and> endswith (listing ! i) ''.profile''])"
proof -
  have A: "\<forall>i. \<exists>!p. p < P \<and> distributed_to P p i"
    using distributed_to_unique [OF assms(1)] by blast
  have B: "\<forall>i p. distributed_to P p i \<longleftrightarrow> i mod P = p"
    by (simp add: distributed_to_def)
  have run: "\<exists>evs result.
             run_multiple_windfields (Some \<lparr>mpi_size = P, mpi_rank = p\<rparr>) (inbox p) engine dir
                 (own p) listing = (evs, Returned result)
           \<and> units evs = own_units P p dir (enumerate 0 listing)" for p
  proof -
    let ?folder = "if p = 0 then the (own 0) else hd (inbox p)"
    have 1: "p = 0 \<longrightarrow> own p = Some ?folder"
      using assms(3) by auto
    have 2: "0 < p \<longrightarrow> (\<exists>later. inbox p = ?folder # later)"
      using assms(4) by (cases "inbox p") auto
    from run_multiple_windfields_rank [OF assms(1,2) 1 2, of dir listing]
    show ?thesis by blast
  qed
  have sch: "scheduled P p (inbox p) engine dir (own p) listing
                = [i \<leftarrow> [0..<length listing].
                     i mod P = p \<and> endswith (listing ! i) ''.profile'']" for p
  proof -
    from run [of p] obtain evs result where
      "run_multiple_windfields (Some \<lparr>mpi_size = P, mpi_rank = p\<rparr>) (inbox p) engine dir
                 (own p) listing = (evs, Returned result)"
      and "units evs = own_units P p dir (enumerate 0 listing)"
      by blast
    then show ?thesis
      by (simp add: scheduled_def map_fst_own_units_enumerate)
  qed
  have C: "\<forall>p. snd (windfield_loop P p engine dir folder (enumerate 0 listing)
                      \<lparr>count_local = 0, count_all = 0, trace = []\<rparr>) = None
              \<and> processed_by P p engine dir folder listing
                  = [i \<leftarrow> [0..<length listing].
                       i mod P = p \<and> endswith (listing ! i) ''.profile'']"
    using processed_by_eq [OF assms(1,2)] by blast
  have D: "(\<forall>p. distinct (scheduled P p (inbox p) engine dir (own p) listing))
           \<and> (\<Union>p\<in>{0..<P}. set (scheduled P p (inbox p) engine dir (own p) listing))
               = {0..<length listing}
           \<and> (\<forall>i<length listing.
                 \<exists>!p. p < P \<and> i \<in> set (scheduled P p (inbox p) engine dir (own p) listing))"
    if all: "\<forall>f\<in>set listing. endswith f ''.profile''"
  proof -
    have pb: "scheduled P p (inbox p) engine dir (own p) listing
                = [i \<leftarrow> [0..<length listing]. i mod P = p]" for p
      unfolding sch
      by (rule filter_cong [OF refl]) (use all in auto)
    have d: "\<forall>p. distinct (scheduled P p (inbox p) engine dir (own p) listing)"
      by (simp add: pb)
    have u: "(\<Union>p\<in>{0..<P}. set (scheduled P p (inbox p) engine dir (own p) listing))
               = {0..<length listing}"
      using assms(1) by (auto simp: pb)
    have e: "\<forall>i<length listing.
                 \<exists>!p. p < P \<and> i \<in> set (scheduled P p (inbox p) engine dir (own p) listing)"
      using assms(1) by (auto simp: pb)
    from d u e show ?thesis by blast
  qed
  from run have R: "\<forall>p. \<exists>evs result.
             run_multiple_windfields (Some \<lparr>mpi_size = P, mpi_rank = p\<rparr>) (inbox p) engine dir
                 (own p) listing = (evs, Returned result)
           \<and> units evs = own_units P p dir (enumerate 0 listing)"
    by blast
  from sch have S: "\<forall>p. scheduled P p (inbox p) engine dir (own p) listing
                = [i \<leftarrow> [0..<length listing].
                     i mod P = p \<and> endswith (listing ! i) ''.profile'']"
    by blast
  from D have D': "(\<forall>f\<in>set listing. endswith f ''.profile'') \<longrightarrow>
             (\<forall>p. distinct (scheduled P p (inbox p) engine dir (own p) listing))
           \<and> (\<Union>p\<in>{0..<P}. set (scheduled P p (inbox p) engine dir (own p) listing))
               = {0..<length listing}
           \<and> (\<forall>i<length listing.
                 \<exists>!p. p < P \<and> i \<in> set (scheduled P p (inbox p) engine dir (own p) listing))"
    by (rule impI)
  show ?thesis
    by (intro conjI A B R S D' C)
qed


text \<open>
  Three wind fields, two ranks: the process of rank 0 runs the indices 0 and 2, the
  process of rank 1 runs index 1.
\<close>

theorem cyclic_distribution_witness:
  "scheduled 2 0 [] completes ''winds'' (Some ''out'')
       [''a.profile'', ''b.profile'', ''c.profile''] = [0, 2]
   \<and> scheduled 2 1 [''out''] completes ''winds'' (Some ''mine'')
       [''a.profile'', ''b.profile'', ''c.profile''] = [1]"
proof -
  let ?inbox = "\<lambda>p::nat. if p = 0 then [] else [''out'']"
  let ?own = "\<lambda>p::nat. if p = 0 then Some ''out'' else Some ''mine''"
  have P: "0 < (2::nat)" by simp
  have e: "\<forall>i w. completes i w" by (simp add: completes_def)
  have o: "?own 0 \<noteq> None" by simp
  have i: "\<forall>p. 0 < p \<longrightarrow> ?inbox p \<noteq> []" by simp
  note c = cyclic_distribution [of 2 completes ?own ?inbox "''winds''"
      "[''a.profile'', ''b.profile'', ''c.profile'']" "''out''", OF P e o i]
  from c [THEN conjunct2, THEN conjunct2, THEN conjunct2, THEN conjunct1]
  have s: "\<forall>p. scheduled 2 p (?inbox p) completes ''winds'' (?own p)
                     [''a.profile'', ''b.profile'', ''c.profile'']
      = [i \<leftarrow> [0..<length [''a.profile'', ''b.profile'', ''c.profile'']].
           i mod 2 = p \<and> endswith ([''a.profile'', ''b.profile'', ''c.profile''] ! i) ''.profile'']" .
  from s [rule_format, of 0] s [rule_format, of 1] show ?thesis
    by (simp add: upt_rec endswith_def)
qed

text \<open>
  Claim C10. Let \<open>P \<ge> 1\<close>, and let the run of every scenario complete. For every rank,
  \<^verbatim>\<open>count_all\<close> ends as the number of all entries of the listing, whatever their names;
  the wind fields run are the entries at the positions \<open>i\<close> of the whole listing with
  \<open>i mod P = p\<close> and a name ending in \<^verbatim>\<open>.profile\<close>, so that an entry without that suffix
  takes up its index and is not run; \<^verbatim>\<open>count_local\<close> counts the wind fields run. Rank 0
  returns and reports, once, the number of all entries.
\<close>

theorem count_all_counts_every_entry:
  assumes "0 < P" and "\<forall>i w. engine i w"
  shows "(\<exists>st. windfield_loop P p engine dir folder (enumerate 0 listing)
                 \<lparr>count_local = 0, count_all = 0, trace = []\<rparr> = (st, None)
              \<and> count_all st = length listing
              \<and> units (trace st) = own_units P p dir (enumerate 0 listing)
              \<and> count_local st = length (own_units P p dir (enumerate 0 listing)))
       \<and> map fst (own_units P p dir (enumerate 0 listing))
           = [i \<leftarrow> [0..<length listing]. i mod P = p \<and> endswith (listing ! i) ''.profile'']
       \<and> (\<exists>evs n. run_multiple_windfields (Some \<lparr>mpi_size = P, mpi_rank = 0\<rparr>) inbox engine
                      dir (Some folder) listing
                    = (evs, Returned (folder, n, length listing))
                 \<and> reports evs = [length listing])"
proof -
  let ?init = "\<lparr>count_local = 0, count_all = 0, trace = []\<rparr>"
  have loop: "\<exists>st. windfield_loop P q engine dir folder (enumerate 0 listing) ?init = (st, None)
              \<and> count_all st = length listing
              \<and> units (trace st) = own_units P q dir (enumerate 0 listing)
              \<and> count_local st = length (own_units P q dir (enumerate 0 listing))" for q
    using windfield_loop_ok [OF assms, of q dir folder "enumerate 0 listing" ?init]
    by simp blast
  from loop [of 0] obtain st where
    st: "windfield_loop P 0 engine dir folder (enumerate 0 listing) ?init = (st, None)"
    and ca: "count_all st = length listing"
    by blast
  have rep: "reports (trace st) = []"
    using reports_loop [of P 0 engine dir folder "enumerate 0 listing" ?init] st by simp
  have hs: "handshake (Some \<lparr>mpi_size = P, mpi_rank = 0\<rparr>) P 0 inbox (Some folder)
           = (Makedir (logs_dir folder) # map (Send folder) [0..<P],
              Returned (folder, logs_dir folder))"
    using assms(1) by (simp add: handshake_def Let_def)
  have run: "run_multiple_windfields (Some \<lparr>mpi_size = P, mpi_rank = 0\<rparr>) inbox engine
                      dir (Some folder) listing
       = ([Sleep 1, Barrier] @ (Makedir (logs_dir folder) # map (Send folder) [0..<P])
            @ [Barrier, Sleep (2 * 0)] @ trace st @ [Barrier] @ [Report (count_all st)] @ [Finalize],
          Returned (folder, count_local st, count_all st))"
    by (simp add: run_multiple_windfields_def hs st Let_def)
  have "\<exists>evs n. run_multiple_windfields (Some \<lparr>mpi_size = P, mpi_rank = 0\<rparr>) inbox engine
                      dir (Some folder) listing
                    = (evs, Returned (folder, n, length listing))
                 \<and> reports evs = [length listing]"
    unfolding run by (simp add: ca rep reports_append reports_sends)
  with loop [of p] map_fst_own_units_enumerate [of P p dir listing] show ?thesis
    by blast
qed

text \<open>
  With \<^verbatim>\<open>README\<close> in front of two wind fields and two ranks, rank 0 counts three entries
  and runs the wind field at index 2; without \<^verbatim>\<open>README\<close> it runs the one at index 0.
\<close>

theorem count_all_counts_every_entry_witness:
  "(\<exists>st. windfield_loop 2 0 (\<lambda>i w. True) ''winds'' ''out''
            (enumerate 0 [''README'', ''a.profile'', ''b.profile''])
            \<lparr>count_local = 0, count_all = 0, trace = []\<rparr> = (st, None)
         \<and> count_all st = 3
         \<and> units (trace st) = [(2, ''winds/b.profile'')])
   \<and> (\<exists>st. windfield_loop 2 0 (\<lambda>i w. True) ''winds'' ''out''
            (enumerate 0 [''a.profile'', ''b.profile''])
            \<lparr>count_local = 0, count_all = 0, trace = []\<rparr> = (st, None)
         \<and> count_all st = 2
         \<and> units (trace st) = [(0, ''winds/a.profile'')])"
proof -
  have P: "0 < (2::nat)" by simp
  have e: "\<forall>i w. (\<lambda>i w. True) (i::nat) (w::string)" by simp
  note a = count_all_counts_every_entry [OF P e, of 0 "''winds''" "''out''"
      "[''README'', ''a.profile'', ''b.profile'']" "[]"]
  note b = count_all_counts_every_entry [OF P e, of 0 "''winds''" "''out''"
      "[''a.profile'', ''b.profile'']" "[]"]
  have ua: "own_units 2 0 ''winds'' (enumerate 0 [''README'', ''a.profile'', ''b.profile''])
              = [(2, ''winds/b.profile'')]"
    by (simp add: own_units_def endswith_def)
  have ub: "own_units 2 0 ''winds'' (enumerate 0 [''a.profile'', ''b.profile''])
              = [(0, ''winds/a.profile'')]"
    by (simp add: own_units_def endswith_def)
  from a [THEN conjunct1, unfolded ua]
  have "\<exists>st. windfield_loop 2 0 (\<lambda>i w. True) ''winds'' ''out''
            (enumerate 0 [''README'', ''a.profile'', ''b.profile''])
            \<lparr>count_local = 0, count_all = 0, trace = []\<rparr> = (st, None)
         \<and> count_all st = 3
         \<and> units (trace st) = [(2, ''winds/b.profile'')]"
    by (elim exE conjE, intro exI conjI) simp_all
  moreover from b [THEN conjunct1, unfolded ub] have "\<exists>st. windfield_loop 2 0 (\<lambda>i w. True) ''winds'' ''out''
            (enumerate 0 [''a.profile'', ''b.profile''])
            \<lparr>count_local = 0, count_all = 0, trace = []\<rparr> = (st, None)
         \<and> count_all st = 2
         \<and> units (trace st) = [(0, ''winds/a.profile'')]"
    by (elim exE conjE, intro exI conjI) simp_all
  ultimately show ?thesis ..
qed

section \<open>Properties of the parameter space expander\<close>

subsection \<open>Dictionaries\<close>

lemma dict_set_absent: "k \<notin> fst ` set ps \<Longrightarrow> dict_set k v ps = ps @ [(k, v)]"
  by (induction ps) auto



lemma distinct_dict_set:
  "distinct (map fst ps) \<Longrightarrow> distinct (map fst (dict_set k v ps))"
proof (induction ps)
  case Nil
  show ?case by simp
next
  case (Cons a ps)
  obtain k' v' where a: "a = (k', v')" by (cases a)
  from Cons show ?case
    using keys_dict_set_list [of k v ps] by (auto simp: a)
qed

lemma others_dict_set_same: "others name (dict_set name v ps) = others name ps"
  by (induction ps) (auto simp: others_def)

lemma others_append: "others name (ps @ qs) = others name ps @ others name qs"
  by (simp add: others_def)

lemma others_absent: "name \<notin> fst ` set ps \<Longrightarrow> others name ps = ps"
  by (induction ps) (auto simp: others_def)

lemma sweep_size_append: "sweep_size (ps @ qs) = sweep_size ps * sweep_size qs"
  by (simp add: sweep_size_def)

lemma sweep_size_split:
  "distinct (map fst ps) \<Longrightarrow> map_of ps name = Some v \<Longrightarrow>
     sweep_size ps = width v * sweep_size (others name ps)"
proof (induction ps)
  case Nil
  then show ?case by simp
next
  case (Cons a ps)
  obtain k' v' where a: "a = (k', v')" by (cases a)
  show ?case
  proof (cases "k' = name")
    case True
    with Cons.prems a have "v' = v" and "name \<notin> fst ` set ps" by auto
    then show ?thesis
      using True a by (simp add: sweep_size_def others_def others_absent [unfolded others_def])
  next
    case False
    with Cons a show ?thesis
      by (simp add: sweep_size_def others_def)
  qed
qed


lemma ntup_append: "ntup (ps @ qs) = ntup ps + ntup qs"
  by (simp add: ntup_def)

lemma ntup_split:
  "distinct (map fst ps) \<Longrightarrow> map_of ps name = Some v \<Longrightarrow>
     ntup ps = (if scalar v then 0 else 1) + ntup (others name ps)"
proof (induction ps)
  case Nil
  then show ?case by simp
next
  case (Cons a ps)
  obtain k' v' where a: "a = (k', v')" by (cases a)
  show ?case
  proof (cases "k' = name")
    case True
    with Cons.prems a have "v' = v" and "name \<notin> fst ` set ps" by auto
    then show ?thesis
      using True a by (simp add: ntup_def others_def others_absent [unfolded others_def])
  next
    case False
    with Cons a show ?thesis
      by (simp add: ntup_def others_def)
  qed
qed

lemma all_scalar_size:
  "\<forall>(k, v)\<in>set ps. scalar v \<Longrightarrow> sweep_size ps = 1"
  by (induction ps) (auto simp: sweep_size_def width_def scalar_def split: pval.splits)

lemma for_name_None:
  "for_name ps names = None \<Longrightarrow> k \<in> set names \<Longrightarrow> map_of ps k = Some v \<Longrightarrow> scalar v"
  by (induction names) (auto simp: scalar_def split: option.splits pval.splits)

lemma for_name_None_all_scalar:
  assumes "for_name ps (map fst ps) = None" and "distinct (map fst ps)"
  shows "\<forall>(k, v)\<in>set ps. scalar v"
proof safe
  fix k v assume kv: "(k, v) \<in> set ps"
  with assms(2) have "map_of ps k = Some v" by simp
  moreover from kv have "k \<in> set (map fst ps)" by force
  ultimately show "scalar v" using for_name_None [OF assms(1)] by blast
qed


lemma set_dict_set: "set (dict_set k v ps) \<subseteq> insert (k, v) (set ps)"
  by (induction ps) (auto split: if_splits)

lemma flat_iff: "flat ps \<longleftrightarrow> (\<forall>(k, v)\<in>set ps. \<forall>vs. v = Tuple vs \<longrightarrow> list_all scalar vs)"
  by (auto simp: flat_def list_all_iff split: pval.splits)

lemma flat_dict_set:
  assumes "flat ps" and "scalar v"
  shows "flat (dict_set k v ps)"
  unfolding flat_iff
proof safe
  fix a vs assume "(a, Tuple vs) \<in> set (dict_set k v ps)"
  with set_dict_set [of k v ps] have "(a, Tuple vs) = (k, v) \<or> (a, Tuple vs) \<in> set ps"
    by auto
  then show "list_all scalar vs"
  proof
    assume "(a, Tuple vs) = (k, v)"
    with assms(2) show ?thesis by (auto simp: scalar_def)
  next
    assume "(a, Tuple vs) \<in> set ps"
    with assms(1) show ?thesis unfolding flat_iff by blast
  qed
qed

lemma well_formed_dict_set:
  assumes "well_formed E ps" and "scalar v" and "name \<noteq> ''wind_profile''"
  shows "well_formed E (dict_set name v ps)"
  using assms
  by (auto simp: well_formed_def distinct_dict_set flat_dict_set map_of_dict_set)

lemma well_formed_with_scenario_name:
  "well_formed E ps \<Longrightarrow> well_formed E (with_scenario_name ps)"
  by (auto simp: with_scenario_name_def scalar_def intro!: well_formed_dict_set
           split: option.splits)

lemma others_with_scenario_name:
  "sweep_size (others name (with_scenario_name q)) = sweep_size (others name q)"
  "ntup (others name (with_scenario_name q)) = ntup (others name q)"
proof -
  have "sweep_size (others name (with_scenario_name q)) = sweep_size (others name q)
      \<and> ntup (others name (with_scenario_name q)) = ntup (others name q)"
  proof (cases "map_of q ''scenario_name''")
    case None
    then have "''scenario_name'' \<notin> fst ` set q" by (simp add: map_of_None_keys)
    then have "with_scenario_name q = q @ [(''scenario_name'', Str ''no_name'')]"
      using None by (simp add: with_scenario_name_def dict_set_absent)
    then show ?thesis
      by (simp add: others_append sweep_size_append ntup_append)
         (simp add: others_def sweep_size_def ntup_def width_def scalar_def)
  next
    case (Some v)
    then show ?thesis by (simp add: with_scenario_name_def)
  qed
  then show "sweep_size (others name (with_scenario_name q)) = sweep_size (others name q)"
    and "ntup (others name (with_scenario_name q)) = ntup (others name q)"
    by simp_all
qed

lemma whole_with_scenario_name:
  "sweep_size (with_scenario_name q) = sweep_size q"
  "ntup (with_scenario_name q) = ntup q"
proof -
  have "sweep_size (with_scenario_name q) = sweep_size q \<and> ntup (with_scenario_name q) = ntup q"
  proof (cases "map_of q ''scenario_name''")
    case None
    then have "''scenario_name'' \<notin> fst ` set q" by (simp add: map_of_None_keys)
    then have "with_scenario_name q = q @ [(''scenario_name'', Str ''no_name'')]"
      using None by (simp add: with_scenario_name_def dict_set_absent)
    then show ?thesis
      by (simp add: sweep_size_append ntup_append)
         (simp add: sweep_size_def ntup_def width_def scalar_def)
  next
    case (Some v)
    then show ?thesis by (simp add: with_scenario_name_def)
  qed
  then show "sweep_size (with_scenario_name q) = sweep_size q"
    and "ntup (with_scenario_name q) = ntup q"
    by simp_all
qed

lemma keys_with_scenario_name: "k \<in> fst ` set q \<Longrightarrow> k \<in> fst ` set (with_scenario_name q)"
  by (auto simp: with_scenario_name_def keys_dict_set split: option.splits)

lemma run_scenario_well_formed:
  assumes "well_formed E q"
  shows "run_scenario E q (Some c) = u_run_scenario E (with_scenario_name q) (Some c)"
proof -
  from well_formed_with_scenario_name [OF assms]
  obtain w where "map_of (with_scenario_name q) ''wind_profile'' = Some (Str w)" "\<not> isdir E w"
    by (auto simp: well_formed_def split: option.splits pval.splits)
  then show ?thesis
    by (simp add: run_scenario.simps default_comment_def Let_def)
qed


lemma sweep_count:
  assumes IH: "\<And>q c. ntup q < N \<Longrightarrow> well_formed E q \<Longrightarrow>
                 \<exists>runs. u_run_scenario E q (Some (Str c)) = Inr runs \<and> length runs = sweep_size q"
      and "well_formed E pu" and "name \<in> fst ` set pu" and "name \<noteq> ''wind_profile''"
      and "list_all scalar vals" and "ntup (others name pu) < N"
  shows "\<exists>runs. sweep E name vals pu (Str c) = Inr runs
           \<and> length runs = length vals * sweep_size (others name pu)"
  using assms(2-)
proof (induction vals arbitrary: pu)
  case Nil
  then show ?case by simp
next
  case (Cons v vals)
  let ?pu1 = "dict_set name v pu"
  let ?c = "c @ ''_'' @ name @ ''_'' @ fmt E v"
  from Cons.prems have v: "scalar v" and vals: "list_all scalar vals" by simp_all
  have wf1: "well_formed E ?pu1"
    using Cons.prems(1) v Cons.prems(3) by (rule well_formed_dict_set)
  then have d1: "distinct (map fst ?pu1)" by (simp add: well_formed_def)
  have m1: "map_of ?pu1 name = Some v" by (simp add: map_of_dict_set)
  have wfW: "well_formed E (with_scenario_name ?pu1)"
    using wf1 by (rule well_formed_with_scenario_name)
  have n1: "ntup (with_scenario_name ?pu1) = ntup (others name pu)"
    using ntup_split [OF d1 m1] v
    by (simp add: whole_with_scenario_name others_dict_set_same)
  have s1: "sweep_size (with_scenario_name ?pu1) = sweep_size (others name pu)"
    using sweep_size_split [OF d1 m1] v
    by (simp add: whole_with_scenario_name others_dict_set_same width_def scalar_def
             split: pval.splits)
  from IH [of "with_scenario_name ?pu1" ?c] n1 Cons.prems(5) wfW
  obtain runs where runs: "u_run_scenario E (with_scenario_name ?pu1) (Some (Str ?c)) = Inr runs"
    and len: "length runs = sweep_size (others name pu)"
    using s1 by auto
  have call: "run_scenario E ?pu1 (Some (Str ?c)) = Inr runs"
    using run_scenario_well_formed [OF wf1] runs by simp
  have keys: "name \<in> fst ` set (with_scenario_name ?pu1)"
    by (intro keys_with_scenario_name) (simp add: keys_dict_set)
  have oth: "sweep_size (others name (with_scenario_name ?pu1)) = sweep_size (others name pu)"
    and nth: "ntup (others name (with_scenario_name ?pu1)) = ntup (others name pu)"
    by (simp_all add: others_with_scenario_name others_dict_set_same)
  from Cons.IH [OF wfW keys Cons.prems(3) vals] nth Cons.prems(5)
  obtain later where later: "sweep E name vals (with_scenario_name ?pu1) (Str c) = Inr later"
    and len': "length later = length vals * sweep_size (others name pu)"
    using oth by auto
  have "sweep E name (v # vals) pu (Str c) = Inr (runs @ later)"
    using call later by (simp add: sweep.simps(2) Let_def)
  moreover have "length (runs @ later) = length (v # vals) * sweep_size (others name pu)"
    using len len' by simp
  ultimately show ?case by blast
qed

lemma expander_count:
  "well_formed E ps \<Longrightarrow>
     \<exists>runs. u_run_scenario E ps (Some (Str c)) = Inr runs \<and> length runs = sweep_size ps"
proof (induction "ntup ps" arbitrary: ps c rule: less_induct)
  case less
  from less.prems have d: "distinct (map fst ps)" and fl: "flat ps"
    by (simp_all add: well_formed_def)
  show ?case
  proof (cases "for_name ps (map fst ps)")
    case None
    from for_name_None_all_scalar [OF None d] have "sweep_size ps = 1"
      by (rule all_scalar_size)
    with None show ?thesis
      by (simp add: u_run_scenario.simps default_comment_def)
  next
    case (Some found)
    obtain name vs where found: "found = (name, vs)" by (cases found)
    from for_name_Some [OF Some [unfolded found]]
    have key: "name \<in> fst ` set ps" and m: "map_of ps name = Some (Tuple vs)"
      by simp_all
    from less.prems m have wind: "name \<noteq> ''wind_profile''"
      by (auto simp: well_formed_def)
    from m have "(name, Tuple vs) \<in> set ps" by (rule map_of_SomeD)
    with fl have vs: "list_all scalar vs" unfolding flat_iff by blast
    have less': "ntup (others name ps) < ntup ps"
      using ntup_split [OF d m] by (simp add: scalar_def)
    from sweep_count [of "ntup ps" E ps name vs c, OF less.hyps less.prems key wind vs less']
    obtain runs where "sweep E name vs ps (Str c) = Inr runs"
      and "length runs = length vs * sweep_size (others name ps)"
      by blast
    moreover have "sweep_size ps = length vs * sweep_size (others name ps)"
      using sweep_size_split [OF d m] by (simp add: width_def)
    ultimately show ?thesis
      using Some found by (simp add: u_run_scenario.simps default_comment_def)
  qed
qed



lemma default_comment_call:
  "default_comment ps dircomment = Inr c \<Longrightarrow>
     u_run_scenario E ps dircomment = u_run_scenario E ps (Some c)"
  by (simp add: u_run_scenario.simps default_comment_def)





















subsection \<open>The sweep\<close>









text \<open>
  Claim C7. Let the comment be given, or \<^verbatim>\<open>eruption_comment\<close> be present. When the
  tuple-valued parameter that \<^verbatim>\<open>_run_scenario\<close> picks has no values, the call returns
  normally with no run at all: the loop \<^verbatim>\<open>for value in p\<close> does nothing and the function
  returns. The same holds wherever an empty tuple sits in a parameter set of the kind of
  claim C6 (scalar values in the tuples, \<^verbatim>\<open>wind_profile\<close> a file, a string as comment):
  every branch of the sweep ends in the empty loop, and no run is made.
\<close>

theorem expander_empty_tuple:
  assumes "default_comment ps dircomment = Inr c"
  shows "(\<forall>name. for_name ps (map fst ps) = Some (name, []) \<longrightarrow>
            u_run_scenario E ps dircomment = Inr [])
       \<and> (well_formed E ps \<and> (\<exists>s. c = Str s) \<and> (\<exists>name. map_of ps name = Some (Tuple [])) \<longrightarrow>
            u_run_scenario E ps dircomment = Inr [])"
proof -
  note call = default_comment_call [OF assms, of E]
  have A: "u_run_scenario E ps dircomment = Inr []"
    if "for_name ps (map fst ps) = Some (name, [])" for name
    unfolding call using that by (simp add: u_run_scenario.simps default_comment_def)
  have B: "u_run_scenario E ps dircomment = Inr []"
    if wf: "well_formed E ps" and s: "c = Str s" and m: "map_of ps name = Some (Tuple [])"
    for s name
  proof -
    from wf have d: "distinct (map fst ps)" by (simp add: well_formed_def)
    from sweep_size_split [OF d m] have "sweep_size ps = 0"
      by (simp add: width_def)
    with expander_count [OF wf, of s] show ?thesis
      unfolding call s by auto
  qed
  from A B show ?thesis by blast
qed

text \<open>
  An empty tuple behind a tuple of two values, with the comment taken from
  \<^verbatim>\<open>eruption_comment\<close>; and an empty tuple picked first, where neither \<^verbatim>\<open>wind_profile\<close> nor a
  string as comment is needed.
\<close>

theorem expander_empty_tuple_witness:
  "u_run_scenario example_environment
     [(''wind_profile'', Str ''a.profile''), (''eruption_comment'', Str ''e''),
      (''x'', Tuple [Num 1, Num 2]), (''y'', Tuple [])] None = Inr []
   \<and> u_run_scenario example_environment
       [(''y'', Tuple []), (''x'', Tuple [Num 1, Num 2])] (Some (Num 7)) = Inr []"
proof -
  let ?E = example_environment
  let ?p = "[(''wind_profile'', Str ''a.profile''), (''eruption_comment'', Str ''e''),
      (''x'', Tuple [Num 1, Num 2]), (''y'', Tuple [])]"
  let ?q = "[(''y'', Tuple []), (''x'', Tuple [Num 1, Num 2])]"
  have c: "default_comment ?p None = Inr (Str ''e'')"
    by (simp add: default_comment_def)
  have w: "well_formed ?E ?p \<and> (\<exists>s. Str ''e'' = Str s)
             \<and> (\<exists>name. map_of ?p name = Some (Tuple []))"
    by (auto simp: well_formed_def flat_def scalar_def example_environment_def
             intro: exI [of _ "''y''"])
  from expander_empty_tuple [OF c, of ?E] w
  have A: "u_run_scenario ?E ?p None = Inr []" by blast
  have c': "default_comment ?q (Some (Num 7)) = Inr (Num 7)"
    by (simp add: default_comment_def)
  have f: "for_name ?q (map fst ?q) = Some (''y'', [])"
    by simp
  from expander_empty_tuple [OF c', of ?E] f
  have B: "u_run_scenario ?E ?q (Some (Num 7)) = Inr []" by blast
  from A B show ?thesis ..
qed

end
